theory Spec2Isabelle
  imports Main
begin

section \<open>Go strings, runes and the regular expression of the validator\<close>

text \<open>
  The analyser (package \<open>testsnake\<close>, file \<open>testsnake.go\<close>, and its older sibling with the
  map-based table extraction) reads the names given to \<open>t.Run\<close> and reports those that are
  not snake case.

  A Go string that reaches the validator is modelled by the sequence of code points that both
  \<open>for _, ch := range name\<close> and the \<open>regexp\<close> package decode from it (the two decode UTF-8
  in the same way, an invalid byte giving U+FFFD in both). A rune is a natural number.
  Identifier names, file names and type strings are only ever compared for equality or for
  a suffix, and are kept as \<open>string\<close>.
\<close>

type_synonym rune = nat
type_synonym gostring = "rune list"

definition ascii :: "string \<Rightarrow> gostring" where
  "ascii s = map of_char s"

text \<open>
  \<open>strings.Trim(s, cutset)\<close> removes the leading and the trailing runes that occur in the
  cut set; the analyser only calls it with the cut set of the double quote (code point 34).
\<close>

definition Trim :: "gostring \<Rightarrow> gostring \<Rightarrow> gostring" where
  "Trim s cutset =
     rev (dropWhile (\<lambda>c. c \<in> set cutset) (rev (dropWhile (\<lambda>c. c \<in> set cutset) s)))"

definition quote :: gostring where
  "quote = [34]"

definition HasSuffix :: "string \<Rightarrow> string \<Rightarrow> bool" where
  "HasSuffix s suffix =
     (length suffix \<le> length s \<and> drop (length s - length suffix) s = suffix)"

text \<open>
  Regular expressions over runes, matched by Brzozowski derivatives. The pattern of the
  analyser is anchored at both ends (\<open>^\<close> and \<open>$\<close> without flags are the beginning and the
  end of the text in Go), so \<open>MatchString\<close> holds exactly when the whole text is in the
  language of the expression between the anchors; \<open>matchAnchored\<close> decides that.
\<close>

datatype regex =
    Never
  | Epsilon
  | Range rune rune
  | Alt regex regex
  | Cat regex regex
  | Star regex
  | Plus regex

fun nullable :: "regex \<Rightarrow> bool" where
  "nullable Never = False"
| "nullable Epsilon = True"
| "nullable (Range lo hi) = False"
| "nullable (Alt r s) = (nullable r \<or> nullable s)"
| "nullable (Cat r s) = (nullable r \<and> nullable s)"
| "nullable (Star r) = True"
| "nullable (Plus r) = nullable r"

fun deriv :: "rune \<Rightarrow> regex \<Rightarrow> regex" where
  "deriv c Never = Never"
| "deriv c Epsilon = Never"
| "deriv c (Range lo hi) = (if lo \<le> c \<and> c \<le> hi then Epsilon else Never)"
| "deriv c (Alt r s) = Alt (deriv c r) (deriv c s)"
| "deriv c (Cat r s) =
     (if nullable r then Alt (Cat (deriv c r) s) (deriv c s) else Cat (deriv c r) s)"
| "deriv c (Star r) = Cat (deriv c r) (Star r)"
| "deriv c (Plus r) = Cat (deriv c r) (Star r)"

fun matchAnchored :: "regex \<Rightarrow> gostring \<Rightarrow> bool" where
  "matchAnchored r [] = nullable r"
| "matchAnchored r (c # cs) = matchAnchored (deriv c r) cs"

text \<open>
  The pattern \<^verbatim>\<open>^[a-z0-9]+(_[a-z0-9]+)*$\<close>: \<open>a\<close> to \<open>z\<close> are 97 to 122, \<open>0\<close> to \<open>9\<close> are
  48 to 57, and the underscore is 95.
\<close>

definition lowerOrDigitClass :: regex where
  "lowerOrDigitClass = Alt (Range 97 122) (Range 48 57)"

definition snakeCasePattern :: regex where
  "snakeCasePattern =
     Cat (Plus lowerOrDigitClass) (Star (Cat (Range 95 95) (Plus lowerOrDigitClass)))"

section \<open>The convention validator\<close>

text \<open>
  \<open>unicode.IsUpper\<close> is the standard library's: below 128 the upper-case letters are
  \<open>A\<close> to \<open>Z\<close> (65 to 90); the table of upper-case code points from 128 on is not part of
  this repository and is the parameter \<open>upperTable\<close>. Every result below holds for every
  table.
\<close>

definition IsUpper :: "(rune \<Rightarrow> bool) \<Rightarrow> rune \<Rightarrow> bool" where
  "IsUpper upperTable r = (if r < 128 then 65 \<le> r \<and> r \<le> 90 else upperTable r)"

fun hasUpper :: "(rune \<Rightarrow> bool) \<Rightarrow> gostring \<Rightarrow> bool" where
  "hasUpper upperTable [] = False"
| "hasUpper upperTable (ch # rest) =
     (if IsUpper upperTable ch then True else hasUpper upperTable rest)"

text \<open>
  \<open>isValidSnakeCase\<close>, the same text in both analyser files: the empty string is refused,
  then a string with an upper-case code point, then the pattern decides.
\<close>

definition isValidSnakeCase :: "(rune \<Rightarrow> bool) \<Rightarrow> gostring \<Rightarrow> bool" where
  "isValidSnakeCase upperTable name =
     (if name = [] then False
      else if hasUpper upperTable name then False
      else matchAnchored snakeCasePattern name)"

subsection \<open>The grammar as the specification words it\<close>

text \<open>
  The specification's wording of the grammar, independent of the regular expression: split
  the text at every underscore; each piece must be a non-empty run of lower-case letters or
  digits. \<open>doubled\<close> finds two adjacent occurrences of a rune.
\<close>

definition lowerOrDigit :: "rune \<Rightarrow> bool" where
  "lowerOrDigit c = ((97 \<le> c \<and> c \<le> 122) \<or> (48 \<le> c \<and> c \<le> 57))"

fun splitOn :: "rune \<Rightarrow> gostring \<Rightarrow> gostring list" where
  "splitOn d [] = [[]]"
| "splitOn d (c # cs) =
     (if c = d then [] # splitOn d cs
      else (case splitOn d cs of r # rs \<Rightarrow> (c # r) # rs | [] \<Rightarrow> [[c]]))"

definition isRun :: "gostring \<Rightarrow> bool" where
  "isRun r = (r \<noteq> [] \<and> list_all lowerOrDigit r)"

definition snakeRuns :: "gostring \<Rightarrow> bool" where
  "snakeRuns s = list_all isRun (splitOn 95 s)"

fun doubled :: "rune \<Rightarrow> gostring \<Rightarrow> bool" where
  "doubled d (a # b # cs) = ((a = d \<and> b = d) \<or> doubled d (b # cs))"
| "doubled d cs = False"

section \<open>Syntax trees and the type oracle\<close>

text \<open>
  The node kinds of \<open>go/ast\<close> that the analyser tells apart each have a constructor, with the
  fields it reads; every other kind of node (files, declarations, blocks, function
  literals, binary expressions, and so on) is an \<open>OtherNode\<close> with its position, its children in
  the order \<open>ast.Walk\<close> visits them, and its end. A position is a \<open>token.Pos\<close>; \<open>NoPos\<close> is 0.

  \<^item> \<open>BasicLit ValuePos Value\<close>: \<open>Value\<close> is the source text of the literal, quotes included.
  \<^item> \<open>Ident NamePos Name\<close>.
  \<^item> \<open>SelectorExpr X Sel.NamePos Sel.Name\<close>.
  \<^item> \<open>CallExpr Fun Args Rparen\<close>.
  \<^item> \<open>CompositeLit Type Lbrace Elts Rbrace\<close>.
  \<^item> \<open>KeyValueExpr Key Value\<close>.
  \<^item> \<open>RangeStmt For Key Value X Body\<close>.
  \<^item> \<open>AssignStmt Lhs Tok Rhs\<close>: \<open>Tok\<close> is the operator, \<open>=\<close>, \<open>:=\<close>, \<open>+=\<close> or another compound
    assignment; no function of the analysers reads it.
  \<^item> \<open>ValueSpec Names Type Values\<close>, the names being identifiers.
\<close>

type_synonym pos = nat

definition NoPos :: pos where
  "NoPos = 0"

datatype assignTok = ASSIGN | DEFINE | ADD_ASSIGN | OTHER_ASSIGN

datatype node =
    BasicLit pos gostring
  | Ident pos string
  | SelectorExpr node pos string
  | CallExpr node "node list" pos
  | CompositeLit "node option" pos "node list" pos
  | KeyValueExpr node node
  | RangeStmt pos "node option" "node option" node node
  | AssignStmt "node list" assignTok "node list"
  | ValueSpec "(pos \<times> string) list" "node option" "node list"
  | OtherNode pos "node list" pos

text \<open>
  The type oracle \<open>pass.TypesInfo\<close>. A constant value is known by its kind and by the text
  its \<open>String()\<close> method prints (for a string constant: the quoted, possibly shortened text;
  that method belongs to \<open>go/constant\<close>). An object is a constant with its value, a variable,
  or anything else; the number stands for the object's identity, which \<open>==\<close> compares.
  \<open>TypesValue\<close> is \<open>Types[expr]\<close> restricted to what both analysers test together: it is
  \<open>Some v\<close> when the expression is in the map with the non-nil constant value \<open>v\<close>.
  \<open>TypeOf\<close> gives the text \<open>typ.String()\<close> of the type, \<open>None\<close> for a nil type. The maps are keyed
  by the node; two nodes of one file set that are equal as values are the same node, since
  they have the same positions.
\<close>

datatype constKind = KUnknown | KBool | KString | KInt | KFloat | KComplex

datatype constValue = ConstValue (Kind: constKind) (StringOf: gostring)

datatype object = Const nat constValue | Var nat | OtherObject nat

record goFile =
  fileName :: string
  fileRoot :: node

record pass =
  Files :: "goFile list"
  ObjectOf :: "node \<Rightarrow> object option"
  TypesValue :: "node \<Rightarrow> constValue option"
  TypeOf :: "node \<Rightarrow> string option"

text \<open>
  A diagnostic is the position and the name given to \<open>pass.Reportf(pos, msg, name)\<close>; the
  message is the fixed template with the name in it. The analyser's result is the list of
  the diagnostics in the order they are reported.
\<close>

datatype diagnostic = Diagnostic pos gostring

type_synonym valueWithPos = "gostring \<times> pos"

subsection \<open>Type assertions\<close>

text \<open>
  Each type assertion of the source to a pointer type of \<open>go/ast\<close>, such as
  \<open>callExpr, ok := n.(T)\<close> for the call expressions: \<open>None\<close> when the assertion fails.
\<close>

fun asBasicLit :: "node \<Rightarrow> (pos \<times> gostring) option" where
  "asBasicLit (BasicLit p v) = Some (p, v)"
| "asBasicLit n = None"

fun asIdent :: "node \<Rightarrow> (pos \<times> string) option" where
  "asIdent (Ident p nm) = Some (p, nm)"
| "asIdent n = None"

fun asSelectorExpr :: "node \<Rightarrow> (node \<times> pos \<times> string) option" where
  "asSelectorExpr (SelectorExpr x sp sn) = Some (x, sp, sn)"
| "asSelectorExpr n = None"

fun asCallExpr :: "node \<Rightarrow> (node \<times> node list \<times> pos) option" where
  "asCallExpr (CallExpr fn args rp) = Some (fn, args, rp)"
| "asCallExpr n = None"

fun asCompositeLit :: "node \<Rightarrow> node list option" where
  "asCompositeLit (CompositeLit ty lb elts rb) = Some elts"
| "asCompositeLit n = None"

fun asKeyValueExpr :: "node \<Rightarrow> (node \<times> node) option" where
  "asKeyValueExpr (KeyValueExpr k v) = Some (k, v)"
| "asKeyValueExpr n = None"

fun asRangeStmt :: "node \<Rightarrow> (node option \<times> node) option" where
  "asRangeStmt (RangeStmt fp k v x body) = Some (v, x)"
| "asRangeStmt n = None"

fun asAssignStmt :: "node \<Rightarrow> (node list \<times> node list) option" where
  "asAssignStmt (AssignStmt lhs tok rhs) = Some (lhs, rhs)"
| "asAssignStmt n = None"

fun asValueSpec :: "node \<Rightarrow> ((pos \<times> string) list \<times> node list) option" where
  "asValueSpec (ValueSpec names ty vals) = Some (names, vals)"
| "asValueSpec n = None"

subsection \<open>Positions\<close>

text \<open>
  \<open>Pos()\<close> and \<open>End()\<close> as \<open>go/ast\<close> computes them from the fields. The analysers read the
  position of a call, of a literal, of a field value and of a range statement, and the end
  of a call and of a range statement. For a statement with no left-hand side or no name,
  which the parser never builds and where \<open>go/ast\<close> would fail, the model gives \<open>NoPos\<close>. The
  end of a literal is its position plus the byte length of its text; the model adds the
  number of its runes, which is the byte length when the text is ASCII. The analysers take
  the end of a call and of a range statement only.
\<close>

fun nodePos :: "node \<Rightarrow> pos" where
  "nodePos (BasicLit p v) = p"
| "nodePos (Ident p nm) = p"
| "nodePos (SelectorExpr x sp sn) = nodePos x"
| "nodePos (CallExpr fn args rp) = nodePos fn"
| "nodePos (CompositeLit None lb elts rb) = lb"
| "nodePos (CompositeLit (Some ty) lb elts rb) = nodePos ty"
| "nodePos (KeyValueExpr k v) = nodePos k"
| "nodePos (RangeStmt fp k v x body) = fp"
| "nodePos (AssignStmt [] tok rhs) = NoPos"
| "nodePos (AssignStmt (l # ls) tok rhs) = nodePos l"
| "nodePos (ValueSpec [] ty vals) = NoPos"
| "nodePos (ValueSpec ((p, nm) # names) ty vals) = p"
| "nodePos (OtherNode p cs e) = p"

fun nodeEnd :: "node \<Rightarrow> pos" and lastEnd :: "node list \<Rightarrow> pos" where
  "nodeEnd (BasicLit p v) = p + length v"
| "nodeEnd (Ident p nm) = p + length nm"
| "nodeEnd (SelectorExpr x sp sn) = sp + length sn"
| "nodeEnd (CallExpr fn args rp) = rp + 1"
| "nodeEnd (CompositeLit ty lb elts rb) = rb + 1"
| "nodeEnd (KeyValueExpr k v) = nodeEnd v"
| "nodeEnd (RangeStmt fp k v x body) = nodeEnd body"
| "nodeEnd (AssignStmt lhs tok rhs) = lastEnd rhs"
| "nodeEnd (ValueSpec names ty vals) =
     (if vals \<noteq> [] then lastEnd vals
      else (case ty of Some t \<Rightarrow> nodeEnd t
            | None \<Rightarrow> (case rev names of (p, nm) # _ \<Rightarrow> p + length nm | [] \<Rightarrow> NoPos)))"
| "nodeEnd (OtherNode p cs e) = e"
| "lastEnd [] = NoPos"
| "lastEnd [n] = nodeEnd n"
| "lastEnd (n # m # ns) = lastEnd (m # ns)"

subsection \<open>Traversal\<close>

text \<open>
  \<open>ast.Inspect(root, f)\<close> walks the tree in depth-first order: it calls \<open>f\<close> on a node and, when
  \<open>f\<close> returns true, walks the children in turn; when \<open>f\<close> returns false only the children of
  that node are skipped, and the walk goes on with the node's siblings. The closures of the
  source assign to variables of the enclosing function; here the callback takes and returns
  that state. (After the children \<open>Inspect\<close> also calls \<open>f(nil)\<close>, which changes nothing in any
  of the closures of the source; the comment groups of a \<open>ValueSpec\<close>, which no closure
  looks at, are left out of its children.)
\<close>

fun optNode :: "node option \<Rightarrow> node list" where
  "optNode None = []"
| "optNode (Some n) = [n]"

fun children :: "node \<Rightarrow> node list" where
  "children (BasicLit p v) = []"
| "children (Ident p nm) = []"
| "children (SelectorExpr x sp sn) = [x, Ident sp sn]"
| "children (CallExpr fn args rp) = fn # args"
| "children (CompositeLit ty lb elts rb) = optNode ty @ elts"
| "children (KeyValueExpr k v) = [k, v]"
| "children (RangeStmt fp k v x body) = optNode k @ optNode v @ [x, body]"
| "children (AssignStmt lhs tok rhs) = lhs @ rhs"
| "children (ValueSpec names ty vals) = map (\<lambda>(p, nm). Ident p nm) names @ optNode ty @ vals"
| "children (OtherNode p cs e) = cs"

function inspect :: "(node \<Rightarrow> 's \<Rightarrow> bool \<times> 's) \<Rightarrow> node \<Rightarrow> 's \<Rightarrow> 's" where
  "inspect f n s =
     (case f n s of
        (False, s') \<Rightarrow> s'
      | (True, s') \<Rightarrow> fold (inspect f) (children n) s')"
  by pat_completeness auto
termination
proof (relation "measure (\<lambda>(f, n, s). size n)")
  show "wf (measure (\<lambda>(f :: node \<Rightarrow> 's \<Rightarrow> bool \<times> 's, n, s). size n))"
    by simp
next
  fix f :: "node \<Rightarrow> 's \<Rightarrow> bool \<times> 's" and n s x y c and t :: 's
  assume "c \<in> set (children n)"
  then have "size c < size n"
  proof (cases n)
    case (CompositeLit ty lb elts rb)
    with \<open>c \<in> set (children n)\<close> show ?thesis
      by (cases ty) (auto simp: less_Suc_eq_le dest: size_list_estimation' [where f = size and y = "size c"])
  next
    case (RangeStmt fp k v x body)
    with \<open>c \<in> set (children n)\<close> show ?thesis
      by (cases k; cases v) auto
  next
    case (ValueSpec names ty vals)
    with \<open>c \<in> set (children n)\<close> show ?thesis
      by (cases ty) (auto simp: less_Suc_eq_le dest: size_list_estimation' [where f = size and y = "size c"])
  qed (auto simp: less_Suc_eq_le dest: size_list_estimation' [where f = size and y = "size c"])
  then show "((f, c, t), (f, n, s)) \<in> measure (\<lambda>(f, n, s). size n)"
    by simp
qed

text \<open>The nodes of a tree in the order a walk that never stops visits them.\<close>

function preorder :: "node \<Rightarrow> node list" where
  "preorder n = n # concat (map preorder (children n))"
  by pat_completeness auto
termination
proof (relation "measure size")
  show "wf (measure (size :: node \<Rightarrow> nat))"
    by simp
next
  fix n c :: node
  assume "c \<in> set (children n)"
  then have "size c < size n"
  proof (cases n)
    case (CompositeLit ty lb elts rb)
    with \<open>c \<in> set (children n)\<close> show ?thesis
      by (cases ty) (auto simp: less_Suc_eq_le dest: size_list_estimation' [where f = size and y = "size c"])
  next
    case (RangeStmt fp k v x body)
    with \<open>c \<in> set (children n)\<close> show ?thesis
      by (cases k; cases v) auto
  next
    case (ValueSpec names ty vals)
    with \<open>c \<in> set (children n)\<close> show ?thesis
      by (cases ty) (auto simp: less_Suc_eq_le dest: size_list_estimation' [where f = size and y = "size c"])
  qed (auto simp: less_Suc_eq_le dest: size_list_estimation' [where f = size and y = "size c"])
  then show "(c, n) \<in> measure size"
    by simp
qed

section \<open>The value resolver of \<open>testsnake.go\<close>\<close>

text \<open>
  \<open>findVarDecl\<close>: the closure given to \<open>ast.Inspect\<close> looks at every assignment statement. The
  loop over the left-hand sides is \<open>findVarDeclLhs\<close>, with the index \<open>i\<close>: at the first
  left-hand side that is an identifier of the object, with \<open>i < len(assign.Rhs)\<close> and a basic
  literal at \<open>Rhs[i]\<close>, the closure stores the trimmed literal in \<open>result\<close> and returns false.
  After each file the outer loop stops when \<open>result\<close> is not empty.
\<close>

fun findVarDeclLhs :: "pass \<Rightarrow> object \<Rightarrow> node list \<Rightarrow> node list \<Rightarrow> nat \<Rightarrow> gostring option" where
  "findVarDeclLhs P obj [] rhs i = None"
| "findVarDeclLhs P obj (lhs # rest) rhs i =
     (case asIdent lhs of
        Some lhsIdent \<Rightarrow>
          if ObjectOf P lhs = Some obj \<and> i < length rhs then
            (case asBasicLit (rhs ! i) of
               Some (lp, v) \<Rightarrow> Some (Trim v quote)
             | None \<Rightarrow> findVarDeclLhs P obj rest rhs (Suc i))
          else findVarDeclLhs P obj rest rhs (Suc i)
      | None \<Rightarrow> findVarDeclLhs P obj rest rhs (Suc i))"

definition findVarDeclVisit :: "pass \<Rightarrow> object \<Rightarrow> node \<Rightarrow> gostring \<Rightarrow> bool \<times> gostring" where
  "findVarDeclVisit P obj n result =
     (case asAssignStmt n of
        Some (lhs, rhs) \<Rightarrow>
          (case findVarDeclLhs P obj lhs rhs 0 of
             Some v \<Rightarrow> (False, v)
           | None \<Rightarrow> (True, result))
      | None \<Rightarrow> (True, result))"

fun findVarDeclFiles :: "pass \<Rightarrow> object \<Rightarrow> goFile list \<Rightarrow> gostring \<Rightarrow> gostring" where
  "findVarDeclFiles P obj [] result = result"
| "findVarDeclFiles P obj (file # files) result =
     (let result' = inspect (findVarDeclVisit P obj) (fileRoot file) result
      in if result' \<noteq> [] then result' else findVarDeclFiles P obj files result')"

definition findVarDecl :: "pass \<Rightarrow> node \<Rightarrow> gostring" where
  "findVarDecl P ident =
     (case ObjectOf P ident of
        None \<Rightarrow> []
      | Some obj \<Rightarrow> findVarDeclFiles P obj (Files P) [])"

text \<open>
  \<open>eval\<close>, in the order of the source: a basic literal; a constant value of kind string from
  the type oracle; a selector expression, which is refused; an identifier (\<open>evalIdent\<close>: a
  string constant, or a variable with a declaration found by \<open>findVarDecl\<close>); anything
  else is refused. The result is the pair of the text and the flag \<open>ok\<close>. \<open>strVal\<close> turns a
  refusal into the empty string.
\<close>

definition evalIdent :: "pass \<Rightarrow> node \<Rightarrow> gostring \<times> bool" where
  "evalIdent P ident =
     (case ObjectOf P ident of
        None \<Rightarrow> ([], False)
      | Some (Const i val) \<Rightarrow>
          if Kind val = KString then (Trim (StringOf val) quote, True) else ([], False)
      | Some (Var i) \<Rightarrow>
          (let decl = findVarDecl P ident
           in if decl \<noteq> [] then (decl, True) else ([], False))
      | Some (OtherObject i) \<Rightarrow> ([], False))"

definition constantString :: "pass \<Rightarrow> node \<Rightarrow> gostring option" where
  "constantString P expr =
     (case TypesValue P expr of
        None \<Rightarrow> None
      | Some val \<Rightarrow> if Kind val = KString then Some (Trim (StringOf val) quote) else None)"

definition eval :: "pass \<Rightarrow> node \<Rightarrow> gostring \<times> bool" where
  "eval P expr =
     (case asBasicLit expr of
        Some (p, v) \<Rightarrow> (Trim v quote, True)
      | None \<Rightarrow>
          (case constantString P expr of
             Some s \<Rightarrow> (s, True)
           | None \<Rightarrow>
               (case asSelectorExpr expr of
                  Some sel \<Rightarrow> ([], False)
                | None \<Rightarrow>
                    (case asIdent expr of
                       Some ident \<Rightarrow> evalIdent P expr
                     | None \<Rightarrow> ([], False)))))"

definition strVal :: "pass \<Rightarrow> node \<Rightarrow> gostring" where
  "strVal P expr = (case eval P expr of (val, True) \<Rightarrow> val | (val, False) \<Rightarrow> [])"

section \<open>Table-driven extraction of \<open>testsnake.go\<close>\<close>

text \<open>
  \<open>extractFieldValueWithPos\<close> walks the elements of one row and returns the value and the
  position of the first key-value pair whose key is the field and whose value \<open>eval\<close>
  resolves.
\<close>

definition fieldName :: "node \<Rightarrow> string" where
  "fieldName key = (case asIdent key of Some (p, nm) \<Rightarrow> nm | None \<Rightarrow> [])"

fun extractFieldValueWithPos :: "pass \<Rightarrow> node list \<Rightarrow> string \<Rightarrow> gostring \<times> pos" where
  "extractFieldValueWithPos P [] targetField = ([], NoPos)"
| "extractFieldValueWithPos P (elt # elts) targetField =
     (case asKeyValueExpr elt of
        Some (k, v) \<Rightarrow>
          if fieldName k = targetField then
            (case eval P v of
               (val, True) \<Rightarrow> (val, nodePos v)
             | (val, False) \<Rightarrow> extractFieldValueWithPos P elts targetField)
          else extractFieldValueWithPos P elts targetField
      | None \<Rightarrow> extractFieldValueWithPos P elts targetField)"

text \<open>
  \<open>extractValuesWithPosFromRange\<close>, first search: the range statement whose \<open>Value\<close> is an
  identifier of the loop variable's object gives \<open>rangeExpr\<close>, its \<open>X\<close>; the closure returns
  false there. The files of the pass are searched in order until \<open>rangeExpr\<close> is set.
\<close>

definition rangeVisit :: "pass \<Rightarrow> object \<Rightarrow> node \<Rightarrow> node option \<Rightarrow> bool \<times> node option" where
  "rangeVisit P obj n rangeExpr =
     (case asRangeStmt n of
        Some (Some v, x) \<Rightarrow>
          (case asIdent v of
             Some ident \<Rightarrow>
               if ObjectOf P v = Some obj then (False, Some x) else (True, rangeExpr)
           | None \<Rightarrow> (True, rangeExpr))
      | Some (None, x) \<Rightarrow> (True, rangeExpr)
      | None \<Rightarrow> (True, rangeExpr))"

fun rangeFiles :: "pass \<Rightarrow> object \<Rightarrow> goFile list \<Rightarrow> node option \<Rightarrow> node option" where
  "rangeFiles P obj [] rangeExpr = rangeExpr"
| "rangeFiles P obj (file # files) rangeExpr =
     (let rangeExpr' = inspect (rangeVisit P obj) (fileRoot file) rangeExpr
      in if rangeExpr' \<noteq> None then rangeExpr' else rangeFiles P obj files rangeExpr')"

text \<open>
  Second search, when \<open>rangeExpr\<close> is an identifier: the assignment that gives its object a
  composite literal. A composite literal as \<open>rangeExpr\<close> is taken as it is.
\<close>

fun sliceLhs :: "pass \<Rightarrow> object \<Rightarrow> node list \<Rightarrow> node list \<Rightarrow> nat \<Rightarrow> node option" where
  "sliceLhs P sliceObj [] rhs i = None"
| "sliceLhs P sliceObj (lhs # rest) rhs i =
     (case asIdent lhs of
        Some lhsIdent \<Rightarrow>
          if ObjectOf P lhs = Some sliceObj \<and> i < length rhs then
            (case asCompositeLit (rhs ! i) of
               Some elts \<Rightarrow> Some (rhs ! i)
             | None \<Rightarrow> sliceLhs P sliceObj rest rhs (Suc i))
          else sliceLhs P sliceObj rest rhs (Suc i)
      | None \<Rightarrow> sliceLhs P sliceObj rest rhs (Suc i))"

definition sliceVisit :: "pass \<Rightarrow> object \<Rightarrow> node \<Rightarrow> node option \<Rightarrow> bool \<times> node option" where
  "sliceVisit P sliceObj n sliceLit =
     (case asAssignStmt n of
        Some (lhs, rhs) \<Rightarrow>
          (case sliceLhs P sliceObj lhs rhs 0 of
             Some compLit \<Rightarrow> (False, Some compLit)
           | None \<Rightarrow> (True, sliceLit))
      | None \<Rightarrow> (True, sliceLit))"

fun sliceFiles :: "pass \<Rightarrow> object \<Rightarrow> goFile list \<Rightarrow> node option \<Rightarrow> node option" where
  "sliceFiles P sliceObj [] sliceLit = sliceLit"
| "sliceFiles P sliceObj (file # files) sliceLit =
     (let sliceLit' = inspect (sliceVisit P sliceObj) (fileRoot file) sliceLit
      in if sliceLit' \<noteq> None then sliceLit' else sliceFiles P sliceObj files sliceLit')"

definition findSliceLit :: "pass \<Rightarrow> node \<Rightarrow> node option" where
  "findSliceLit P rangeExpr =
     (case asIdent rangeExpr of
        Some ident \<Rightarrow>
          (case ObjectOf P rangeExpr of
             None \<Rightarrow> None
           | Some sliceObj \<Rightarrow> sliceFiles P sliceObj (Files P) None)
      | None \<Rightarrow>
          (case asCompositeLit rangeExpr of
             Some elts \<Rightarrow> Some rangeExpr
           | None \<Rightarrow> None))"

text \<open>
  The rows: every element of the slice literal that is itself a composite literal gives
  its field value, kept when it is not the empty string.
\<close>

fun extractRows :: "pass \<Rightarrow> node list \<Rightarrow> string \<Rightarrow> valueWithPos list \<Rightarrow> valueWithPos list" where
  "extractRows P [] field vals = vals"
| "extractRows P (elt # elts) field vals =
     (case asCompositeLit elt of
        Some compElts \<Rightarrow>
          (case extractFieldValueWithPos P compElts field of
             (fieldVal, fieldPos) \<Rightarrow>
               if fieldVal \<noteq> [] then extractRows P elts field (vals @ [(fieldVal, fieldPos)])
               else extractRows P elts field vals)
      | None \<Rightarrow> extractRows P elts field vals)"

definition extractValuesWithPosFromRange :: "pass \<Rightarrow> node \<Rightarrow> string \<Rightarrow> valueWithPos list" where
  "extractValuesWithPosFromRange P rangeVar field =
     (case ObjectOf P rangeVar of
        None \<Rightarrow> []
      | Some obj \<Rightarrow>
          (case rangeFiles P obj (Files P) None of
             None \<Rightarrow> []
           | Some rangeExpr \<Rightarrow>
               (case findSliceLit P rangeExpr of
                  None \<Rightarrow> []
                | Some sliceLit \<Rightarrow>
                    (case asCompositeLit sliceLit of
                       Some elts \<Rightarrow> extractRows P elts field []
                     | None \<Rightarrow> []))))"

section \<open>The entry point of \<open>testsnake.go\<close>\<close>

text \<open>
  \<open>isTestingType\<close> compares the text of the receiver's type with the three testing types.
  \<open>runVisit\<close> is the closure of \<open>run\<close>: \<open>runTable\<close> is the block for a selector argument, its
  flag telling whether the closure returned inside it (\<open>len(testCases) > 0\<close>), and
  \<open>runDirect\<close> is the rest of the closure. \<open>run\<close> visits the files whose name ends in
  \<open>_test.go\<close>.
\<close>

definition isTestingType :: "pass \<Rightarrow> node \<Rightarrow> bool" where
  "isTestingType P expr =
     (case TypeOf P expr of
        None \<Rightarrow> False
      | Some typeStr \<Rightarrow>
          typeStr = ''*testing.T'' \<or> typeStr = ''*testing.B'' \<or> typeStr = ''*testing.F'')"

fun reportCases :: "(rune \<Rightarrow> bool) \<Rightarrow> valueWithPos list \<Rightarrow> diagnostic list \<Rightarrow> diagnostic list" where
  "reportCases U [] ds = ds"
| "reportCases U ((v, p) # tcs) ds =
     (if v \<noteq> [] \<and> \<not> isValidSnakeCase U v then reportCases U tcs (ds @ [Diagnostic p v])
      else reportCases U tcs ds)"

definition runTable :: "(rune \<Rightarrow> bool) \<Rightarrow> pass \<Rightarrow> node \<Rightarrow> diagnostic list \<Rightarrow> bool \<times> diagnostic list" where
  "runTable U P firstArg ds =
     (case asSelectorExpr firstArg of
        Some (x, sp, sn) \<Rightarrow>
          (case asIdent x of
             Some ident \<Rightarrow>
               (let testCases = extractValuesWithPosFromRange P x sn
                in (0 < length testCases, reportCases U testCases ds))
           | None \<Rightarrow> (False, ds))
      | None \<Rightarrow> (False, ds))"

definition runDirect :: "(rune \<Rightarrow> bool) \<Rightarrow> pass \<Rightarrow> node \<Rightarrow> node \<Rightarrow> diagnostic list \<Rightarrow> diagnostic list" where
  "runDirect U P callExpr firstArg ds =
     (let testName = strVal P firstArg
      in if testName = [] then ds
         else if \<not> isValidSnakeCase U testName then ds @ [Diagnostic (nodePos callExpr) testName]
         else ds)"

definition runVisit :: "(rune \<Rightarrow> bool) \<Rightarrow> pass \<Rightarrow> node \<Rightarrow> diagnostic list \<Rightarrow> bool \<times> diagnostic list" where
  "runVisit U P n ds =
     (case asCallExpr n of
        None \<Rightarrow> (True, ds)
      | Some (fn, args, rp) \<Rightarrow>
          (case asSelectorExpr fn of
             None \<Rightarrow> (True, ds)
           | Some (x, sp, sn) \<Rightarrow>
               if sn \<noteq> ''Run'' then (True, ds)
               else if \<not> isTestingType P x then (True, ds)
               else if length args < 2 then (True, ds)
               else
                 (let firstArg = args ! 0
                  in (case runTable U P firstArg ds of
                        (True, ds') \<Rightarrow> (True, ds')
                      | (False, ds') \<Rightarrow> (True, runDirect U P n firstArg ds')))))"

fun runFiles :: "(rune \<Rightarrow> bool) \<Rightarrow> pass \<Rightarrow> goFile list \<Rightarrow> diagnostic list \<Rightarrow> diagnostic list" where
  "runFiles U P [] ds = ds"
| "runFiles U P (file # files) ds =
     (if \<not> HasSuffix (fileName file) ''_test.go'' then runFiles U P files ds
      else runFiles U P files (inspect (runVisit U P) (fileRoot file) ds))"

definition run :: "(rune \<Rightarrow> bool) \<Rightarrow> pass \<Rightarrow> diagnostic list" where
  "run U P = runFiles U P (Files P) []"

section \<open>The older analyser file\<close>

text \<open>
  The second analyser file of the repository has the same \<open>findVarDecl\<close>, \<open>isTestingType\<close>
  and \<open>isValidSnakeCase\<close>; its resolver is \<open>getStringValue\<close> and its table extraction
  \<open>extractTableTestNames\<close> fills a Go map from names to positions. The map is an association
  list with one entry for each key (\<open>mapSet\<close> is \<open>result[k] = v\<close>). Go does not fix the order
  in which \<open>range\<close> visits a map: the order is the parameter \<open>rangeOrder\<close>, which lists the
  entries of a map. The definitions of this file that share a name with one of
  \<open>testsnake.go\<close> end in \<open>001\<close>.
\<close>

type_synonym nameMap = "(gostring \<times> pos) list"

fun mapSet :: "gostring \<Rightarrow> pos \<Rightarrow> nameMap \<Rightarrow> nameMap" where
  "mapSet k v [] = [(k, v)]"
| "mapSet k v ((k', v') # m) = (if k = k' then (k, v) # m else (k', v') # mapSet k v m)"

definition getStringValueIdent :: "pass \<Rightarrow> node \<Rightarrow> gostring option" where
  "getStringValueIdent P expr =
     (case asIdent expr of
        None \<Rightarrow> None
      | Some ident \<Rightarrow>
          (case ObjectOf P expr of
             None \<Rightarrow> None
           | Some (Const i val) \<Rightarrow> Some (Trim (StringOf val) quote)
           | Some (Var i) \<Rightarrow>
               (let decl = findVarDecl P expr
                in if decl \<noteq> [] then Some decl else None)
           | Some (OtherObject i) \<Rightarrow> None))"

definition getStringValue :: "pass \<Rightarrow> node \<Rightarrow> gostring" where
  "getStringValue P expr =
     (case asBasicLit expr of
        Some (p, v) \<Rightarrow> Trim v quote
      | None \<Rightarrow>
          (case getStringValueIdent P expr of
             Some s \<Rightarrow> s
           | None \<Rightarrow>
               (case TypesValue P expr of
                  Some val \<Rightarrow> Trim (StringOf val) quote
                | None \<Rightarrow> [])))"

fun extractNamesFromRow :: "node list \<Rightarrow> string \<Rightarrow> nameMap \<Rightarrow> nameMap" where
  "extractNamesFromRow [] field result = result"
| "extractNamesFromRow (innerElt # rest) field result =
     (case asKeyValueExpr innerElt of
        Some (k, v) \<Rightarrow>
          (case asIdent k of
             Some (kp, knm) \<Rightarrow>
               if knm = field then
                 (case asBasicLit v of
                    Some (lp, lv) \<Rightarrow> extractNamesFromRow rest field (mapSet (Trim lv quote) lp result)
                  | None \<Rightarrow> extractNamesFromRow rest field result)
               else extractNamesFromRow rest field result
           | None \<Rightarrow> extractNamesFromRow rest field result)
      | None \<Rightarrow> extractNamesFromRow rest field result)"

fun extractNamesFromCompositeLit :: "node list \<Rightarrow> string \<Rightarrow> nameMap \<Rightarrow> nameMap" where
  "extractNamesFromCompositeLit [] field result = result"
| "extractNamesFromCompositeLit (elt # elts) field result =
     (case asCompositeLit elt of
        Some innerElts \<Rightarrow>
          extractNamesFromCompositeLit elts field (extractNamesFromRow innerElts field result)
      | None \<Rightarrow> extractNamesFromCompositeLit elts field result)"

fun tableAssignLhs ::
  "pass \<Rightarrow> object \<Rightarrow> string \<Rightarrow> node list \<Rightarrow> node list \<Rightarrow> nat \<Rightarrow> nameMap \<Rightarrow> nameMap" where
  "tableAssignLhs P obj field [] rhs i result = result"
| "tableAssignLhs P obj field (lhs # rest) rhs i result =
     (case asIdent lhs of
        Some lhsIdent \<Rightarrow>
          if ObjectOf P lhs = Some obj \<and> i < length rhs then
            (case asCompositeLit (rhs ! i) of
               Some elts \<Rightarrow>
                 tableAssignLhs P obj field rest rhs (Suc i)
                   (extractNamesFromCompositeLit elts field result)
             | None \<Rightarrow> tableAssignLhs P obj field rest rhs (Suc i) result)
          else tableAssignLhs P obj field rest rhs (Suc i) result
      | None \<Rightarrow> tableAssignLhs P obj field rest rhs (Suc i) result)"

fun tableSpecNames ::
  "pass \<Rightarrow> object \<Rightarrow> string \<Rightarrow> (pos \<times> string) list \<Rightarrow> node list \<Rightarrow> nat \<Rightarrow> nameMap \<Rightarrow> nameMap" where
  "tableSpecNames P obj field [] vals i result = result"
| "tableSpecNames P obj field ((p, nm) # rest) vals i result =
     (if ObjectOf P (Ident p nm) = Some obj \<and> i < length vals then
        (case asCompositeLit (vals ! i) of
           Some elts \<Rightarrow>
             tableSpecNames P obj field rest vals (Suc i)
               (extractNamesFromCompositeLit elts field result)
         | None \<Rightarrow> tableSpecNames P obj field rest vals (Suc i) result)
      else tableSpecNames P obj field rest vals (Suc i) result)"

definition tableVisit :: "pass \<Rightarrow> object \<Rightarrow> string \<Rightarrow> node \<Rightarrow> nameMap \<Rightarrow> bool \<times> nameMap" where
  "tableVisit P obj field n result =
     (case asAssignStmt n of
        Some (lhs, rhs) \<Rightarrow> (True, tableAssignLhs P obj field lhs rhs 0 result)
      | None \<Rightarrow>
          (case asValueSpec n of
             Some (names, vals) \<Rightarrow> (True, tableSpecNames P obj field names vals 0 result)
           | None \<Rightarrow> (True, result)))"

definition enclosingRangeVisit :: "node \<Rightarrow> node \<Rightarrow> node option \<Rightarrow> bool \<times> node option" where
  "enclosingRangeVisit callExpr n rangeStmt =
     (case rangeStmt of
        Some found \<Rightarrow> (False, rangeStmt)
      | None \<Rightarrow>
          (case asRangeStmt n of
             Some rs \<Rightarrow>
               if nodePos n < nodePos callExpr \<and> nodeEnd callExpr < nodeEnd n
               then (False, Some n) else (True, None)
           | None \<Rightarrow> (True, None)))"

definition extractTableTestNames :: "pass \<Rightarrow> goFile \<Rightarrow> string \<Rightarrow> node \<Rightarrow> nameMap" where
  "extractTableTestNames P file field callExpr =
     (case inspect (enclosingRangeVisit callExpr) (fileRoot file) None of
        None \<Rightarrow> []
      | Some rangeStmt \<Rightarrow>
          (case asRangeStmt rangeStmt of
             None \<Rightarrow> []
           | Some (v, x) \<Rightarrow>
               (case asIdent x of
                  None \<Rightarrow> []
                | Some sliceIdent \<Rightarrow>
                    (case ObjectOf P x of
                       None \<Rightarrow> []
                     | Some obj \<Rightarrow> inspect (tableVisit P obj field) (fileRoot file) []))))"

fun reportNames :: "(rune \<Rightarrow> bool) \<Rightarrow> nameMap \<Rightarrow> diagnostic list \<Rightarrow> diagnostic list" where
  "reportNames U [] ds = ds"
| "reportNames U ((nm, p) # rest) ds =
     (if \<not> isValidSnakeCase U nm then reportNames U rest (ds @ [Diagnostic p nm])
      else reportNames U rest ds)"

definition runVisit001 ::
  "(rune \<Rightarrow> bool) \<Rightarrow> (nameMap \<Rightarrow> nameMap) \<Rightarrow> pass \<Rightarrow> goFile \<Rightarrow> node \<Rightarrow> diagnostic list
     \<Rightarrow> bool \<times> diagnostic list" where
  "runVisit001 U rangeOrder P file n ds =
     (case asCallExpr n of
        None \<Rightarrow> (True, ds)
      | Some (fn, args, rp) \<Rightarrow>
          (case asSelectorExpr fn of
             None \<Rightarrow> (True, ds)
           | Some (x, sp, sn) \<Rightarrow>
               if sn \<noteq> ''Run'' then (True, ds)
               else if \<not> isTestingType P x then (True, ds)
               else if length args < 2 then (True, ds)
               else
                 (let firstArg = args ! 0
                  in (case asSelectorExpr firstArg of
                        Some (ax, asp, field) \<Rightarrow>
                          (True, reportNames U
                             (rangeOrder (extractTableTestNames P file field n)) ds)
                      | None \<Rightarrow>
                          (let testName = getStringValue P firstArg
                           in if testName = [] then (True, ds)
                              else if \<not> isValidSnakeCase U testName
                              then (True, ds @ [Diagnostic (nodePos n) testName])
                              else (True, ds))))))"

fun runFiles001 ::
  "(rune \<Rightarrow> bool) \<Rightarrow> (nameMap \<Rightarrow> nameMap) \<Rightarrow> pass \<Rightarrow> goFile list \<Rightarrow> diagnostic list
     \<Rightarrow> diagnostic list" where
  "runFiles001 U rangeOrder P [] ds = ds"
| "runFiles001 U rangeOrder P (file # files) ds =
     (if \<not> HasSuffix (fileName file) ''_test.go'' then runFiles001 U rangeOrder P files ds
      else runFiles001 U rangeOrder P files
             (inspect (runVisit001 U rangeOrder P file) (fileRoot file) ds))"

definition run001 :: "(rune \<Rightarrow> bool) \<Rightarrow> (nameMap \<Rightarrow> nameMap) \<Rightarrow> pass \<Rightarrow> diagnostic list" where
  "run001 U rangeOrder P = runFiles001 U rangeOrder P (Files P) []"

section \<open>Notions used to state the properties\<close>

text \<open>
  The language of a regular expression, against which the matcher is proved correct:
  \<open>conc\<close> is the concatenation of two languages and \<open>star\<close> the iteration of one.
\<close>

definition conc :: "gostring set \<Rightarrow> gostring set \<Rightarrow> gostring set" where
  "conc A B = {u @ v | u v. u \<in> A \<and> v \<in> B}"

inductive_set star :: "gostring set \<Rightarrow> gostring set" for A :: "gostring set" where
  star_empty: "[] \<in> star A"
| star_step: "u \<in> A \<Longrightarrow> v \<in> star A \<Longrightarrow> u @ v \<in> star A"

fun lang :: "regex \<Rightarrow> gostring set" where
  "lang Never = {}"
| "lang Epsilon = {[]}"
| "lang (Range lo hi) = {[c] | c. lo \<le> c \<and> c \<le> hi}"
| "lang (Alt r s) = lang r \<union> lang s"
| "lang (Cat r s) = conc (lang r) (lang s)"
| "lang (Star r) = star (lang r)"
| "lang (Plus r) = conc (lang r) (star (lang r))"

text \<open>
  The diagnostics that the visit of one node reports, and the test files of a pass. The
  closure of \<open>run\<close> always returns true and only appends to the diagnostics, so the result
  of \<open>run\<close> is the concatenation of \<open>callDiags\<close> over the nodes of the test files in
  traversal order (\<open>run_fileDiags\<close> below).
\<close>

definition callDiags :: "(rune \<Rightarrow> bool) \<Rightarrow> pass \<Rightarrow> node \<Rightarrow> diagnostic list" where
  "callDiags U P n = snd (runVisit U P n [])"

definition isTestFile :: "goFile \<Rightarrow> bool" where
  "isTestFile file = HasSuffix (fileName file) ''_test.go''"

text \<open>
  A candidate sub-test call is a call \<open>x.Run(args)\<close> with at least two arguments whose
  receiver has one of the three testing types: these are the filters at the head of the
  closure, the same in both analyser files. \<open>candidateArg\<close> gives its name argument.
\<close>

definition candidateArg :: "pass \<Rightarrow> node \<Rightarrow> node option" where
  "candidateArg P n =
     (case asCallExpr n of
        None \<Rightarrow> None
      | Some (fn, args, rp) \<Rightarrow>
          (case asSelectorExpr fn of
             None \<Rightarrow> None
           | Some (x, sp, sn) \<Rightarrow>
               if sn = ''Run'' \<and> isTestingType P x \<and> 2 \<le> length args then Some (args ! 0)
               else None))"

definition fileDiags :: "(rune \<Rightarrow> bool) \<Rightarrow> pass \<Rightarrow> goFile \<Rightarrow> diagnostic list" where
  "fileDiags U P file = concat (map (callDiags U P) (preorder (fileRoot file)))"

text \<open>
  The values the table-driven block of \<open>run\<close> obtains for a name argument: those of
  \<open>extractValuesWithPosFromRange\<close> when the argument is \<open>ident.field\<close>, none otherwise.
\<close>

definition tableCases :: "pass \<Rightarrow> node \<Rightarrow> valueWithPos list" where
  "tableCases P a =
     (case asSelectorExpr a of
        Some (x, sp, field) \<Rightarrow>
          (case asIdent x of
             Some ident \<Rightarrow> extractValuesWithPosFromRange P x field
           | None \<Rightarrow> [])
      | None \<Rightarrow> [])"

text \<open>The entry one element of the slice literal adds to the extracted values.\<close>

definition rowValue :: "pass \<Rightarrow> string \<Rightarrow> node \<Rightarrow> valueWithPos list" where
  "rowValue P field elt =
     (case asCompositeLit elt of
        Some compElts \<Rightarrow>
          (case extractFieldValueWithPos P compElts field of
             (fieldVal, fieldPos) \<Rightarrow> if fieldVal \<noteq> [] then [(fieldVal, fieldPos)] else [])
      | None \<Rightarrow> [])"

text \<open>
  \<open>assignsLiteral P obj m v\<close>: the node \<open>m\<close> is an assignment statement, with any operator
  (\<open>=\<close>, \<open>:=\<close>, \<open>+=\<close>, ...), that at some index has an identifier of the object \<open>obj\<close> on the
  left and a basic literal on the right whose trimmed text is \<open>v\<close>.
  \<open>bindsLoopVar P obj m x\<close>: the node \<open>m\<close> is a range statement over \<open>x\<close> whose \<open>Value\<close> is an
  identifier of the object \<open>obj\<close>. \<open>testNodes\<close> lists the nodes of the test files of a pass
  in the order \<open>run\<close> visits them.
\<close>

definition assignsLiteral :: "pass \<Rightarrow> object \<Rightarrow> node \<Rightarrow> gostring \<Rightarrow> bool" where
  "assignsLiteral P obj m v =
     (case asAssignStmt m of
        Some (lhs, rhs) \<Rightarrow>
          (\<exists>i \<in> {..<min (length lhs) (length rhs)}.
             asIdent (lhs ! i) \<noteq> None \<and> ObjectOf P (lhs ! i) = Some obj \<and>
             (case asBasicLit (rhs ! i) of Some (lp, lv) \<Rightarrow> v = Trim lv quote | None \<Rightarrow> False))
      | None \<Rightarrow> False)"

definition testNodes :: "pass \<Rightarrow> node list" where
  "testNodes P = concat (map (\<lambda>fl. preorder (fileRoot fl)) (filter isTestFile (Files P)))"

definition bindsLoopVar :: "pass \<Rightarrow> object \<Rightarrow> node \<Rightarrow> node \<Rightarrow> bool" where
  "bindsLoopVar P obj m x =
     (case asRangeStmt m of
        Some (Some v, x') \<Rightarrow> asIdent v \<noteq> None \<and> ObjectOf P v = Some obj \<and> x' = x
      | Some (None, x') \<Rightarrow> False
      | None \<Rightarrow> False)"



text \<open>
  The diagnostics the older analyser reports at one node, and the condition under which
  its resolver and that of \<open>testsnake.go\<close> read the type oracle alike: a constant value
  recorded for the expression is of kind string, an identifier of a constant has that
  constant as its recorded value, and an identifier of a variable has no recorded value.
  (The type checker of Go guarantees the three for an argument of type string.)
\<close>

definition callDiags001 ::
  "(rune \<Rightarrow> bool) \<Rightarrow> (nameMap \<Rightarrow> nameMap) \<Rightarrow> pass \<Rightarrow> goFile \<Rightarrow> node \<Rightarrow> diagnostic list" where
  "callDiags001 U rangeOrder P fl n = snd (runVisit001 U rangeOrder P fl n [])"

definition oracleConsistent :: "pass \<Rightarrow> node \<Rightarrow> bool" where
  "oracleConsistent P a =
     ((case TypesValue P a of Some val \<Rightarrow> Kind val = KString | None \<Rightarrow> True) \<and>
      (case asIdent a of
         None \<Rightarrow> True
       | Some ident \<Rightarrow>
           (case ObjectOf P a of
              Some (Const i val) \<Rightarrow> TypesValue P a = Some val
            | Some (Var i) \<Rightarrow> TypesValue P a = None
            | Some (OtherObject i) \<Rightarrow> True
            | None \<Rightarrow> True)))"

section \<open>Sample inputs\<close>

text \<open>
  Small passes on which the analysers are evaluated. \<open>quoted s\<close> is the source text of the
  string literal with content \<open>s\<close>. \<open>singleFile\<close> is a pass of one test file, in which
  identifiers are resolved by name, the identifier \<open>t\<close> has type \<open>*testing.T\<close> and the
  identifier \<open>runner\<close> a type with a method \<open>Run\<close> of its own. \<open>runCall p recv a\<close> is the call
  \<open>recv.Run(a, func(t *testing.T) {})\<close> at position \<open>p\<close>, the function literal without any
  node the analysers look at.
\<close>

definition quoted :: "string \<Rightarrow> gostring" where
  "quoted s = 34 # ascii s @ [34]"

definition recvType :: "node \<Rightarrow> string option" where
  "recvType n =
     (case asIdent n of
        Some (p, nm) \<Rightarrow> if nm = ''t'' then Some ''*testing.T''
                        else if nm = ''runner'' then Some ''*decoy.Runner'' else None
      | None \<Rightarrow> None)"

definition objByName :: "(string \<times> object) list \<Rightarrow> node \<Rightarrow> object option" where
  "objByName tbl n = (case asIdent n of Some (p, nm) \<Rightarrow> map_of tbl nm | None \<Rightarrow> None)"

definition singleFile :: "node \<Rightarrow> (string \<times> object) list \<Rightarrow> (node \<Rightarrow> constValue option) \<Rightarrow> pass" where
  "singleFile root objs consts =
     \<lparr> Files = [\<lparr> fileName = ''sample_test.go'', fileRoot = root \<rparr>],
       ObjectOf = objByName objs, TypesValue = consts, TypeOf = recvType \<rparr>"

definition runCall :: "pos \<Rightarrow> string \<Rightarrow> node \<Rightarrow> node" where
  "runCall p recv a =
     CallExpr (SelectorExpr (Ident p recv) (p + length recv + 1) ''Run'')
       [a, OtherNode (nodeEnd a + 2) [] (nodeEnd a + 24)] (nodeEnd a + 24)"

text \<open>
  \<open>t.Run("", f)\<close>; \<open>t.Run("BadName", f)\<close>; \<open>runner.Run("NotATest", f)\<close>; and
  \<open>t.Run(names.Bad, f)\<close> where \<open>names\<close> is a package and \<open>names.Bad\<close> the string constant
  \<open>"BadName"\<close>.
\<close>

definition emptyNamePass :: pass where
  "emptyNamePass =
     singleFile (OtherNode 1 [runCall 10 ''t'' (BasicLit 16 (quoted ''''))] 50) [] (\<lambda>n. None)"

definition badLiteralPass :: pass where
  "badLiteralPass =
     singleFile (OtherNode 1 [runCall 10 ''t'' (BasicLit 16 (quoted ''BadName''))] 60) [] (\<lambda>n. None)"

definition decoyPass :: pass where
  "decoyPass =
     singleFile (OtherNode 1 [runCall 10 ''runner'' (BasicLit 21 (quoted ''NotATest''))] 60) [] (\<lambda>n. None)"

definition constSelector :: node where
  "constSelector = SelectorExpr (Ident 16 ''names'') 22 ''Bad''"

definition constSelectorPass :: pass where
  "constSelectorPass =
     singleFile (OtherNode 1 [runCall 10 ''t'' constSelector] 60)
       [(''names'', OtherObject 7)]
       (\<lambda>n. if n = constSelector then Some (ConstValue KString (quoted ''BadName'')) else None)"

text \<open>
  \<open>x := "good_name"; x = "BadName"; t.Run(x, f)\<close>, and a range statement that assigns to a
  variable declared before it, followed by a call outside the loop:
  \<open>for _, tt = range []T{{name: "Bad Name"}} {}; t.Run(tt.name, f)\<close>.
\<close>

definition twoWritesPass :: pass where
  "twoWritesPass =
     singleFile
       (OtherNode 1
          [AssignStmt [Ident 5 ''x''] DEFINE [BasicLit 10 (quoted ''good_name'')],
           AssignStmt [Ident 25 ''x''] ASSIGN [BasicLit 29 (quoted ''BadName'')],
           runCall 40 ''t'' (Ident 46 ''x'')] 90)
       [(''x'', Var 1)] (\<lambda>n. None)"

definition outsideRange :: node where
  "outsideRange =
     RangeStmt 10 (Some (Ident 14 ''_'')) (Some (Ident 17 ''tt''))
       (CompositeLit (Some (OtherNode 28 [] 50)) 50
          [CompositeLit None 51 [KeyValueExpr (Ident 52 ''name'') (BasicLit 58 (quoted ''Bad Name''))] 68]
          69)
       (OtherNode 71 [] 73)"

definition outsideCall :: node where
  "outsideCall = runCall 80 ''t'' (SelectorExpr (Ident 86 ''tt'') 89 ''name'')"

definition outsidePass :: pass where
  "outsidePass =
     singleFile (OtherNode 1 [outsideRange, outsideCall] 130) [(''tt'', Var 2)] (\<lambda>n. None)"

text \<open>
  \<open>t.Run(x, f)\<close> for a variable \<open>x\<close> that no statement of the file assigns, and
  \<open>var c string; c += "Bad"; t.Run(c, f)\<close>, where the only statement that writes to \<open>c\<close> is a
  compound assignment.
\<close>

definition noWritePass :: pass where
  "noWritePass =
     singleFile (OtherNode 1 [runCall 40 ''t'' (Ident 46 ''x'')] 90) [(''x'', Var 1)] (\<lambda>n. None)"

definition compoundPass :: pass where
  "compoundPass =
     singleFile
       (OtherNode 1
          [OtherNode 3 [OtherNode 3 [ValueSpec [(7, ''c'')] (Some (Ident 9 ''string'')) []] 15] 15,
           AssignStmt [Ident 20 ''c''] ADD_ASSIGN [BasicLit 25 (quoted ''Bad'')],
           runCall 40 ''t'' (Ident 46 ''c'')] 90)
       [(''c'', Var 1)] (\<lambda>n. None)"

text \<open>
  A keyed row \<open>{..., name: "s", ...}\<close> of a table: a composite literal in which the pair that
  gives the field \<open>name\<close> the double-quoted string literal with content \<open>s\<close> stands after the
  elements \<open>before\<close> and is followed by the elements \<open>others\<close>. \<open>tableRange\<close> is the loop
  \<open>for _, tt := range X { t.Run(tt.name, f) }\<close>. The sample passes range over the variable
  \<open>tests\<close>, assigned the two-row table by \<open>tests := ...\<close> before the loop; over the table
  itself; over a table whose rows are \<open>{want: "...", name: "..."}\<close>; over the variable \<open>tests\<close>
  declared by \<open>var tests = ...\<close>; over a table whose rows give the names as raw string
  literals in back quotes (code point 96); and over a table whose rows are positional,
  \<open>{"..."}\<close>.
\<close>

definition nameRow ::
  "node option \<Rightarrow> pos \<Rightarrow> node list \<Rightarrow> pos \<Rightarrow> pos \<Rightarrow> node list \<Rightarrow> pos \<Rightarrow> string \<Rightarrow> node" where
  "nameRow ty lb before kp vp others rb s =
     CompositeLit ty lb
       (before @ KeyValueExpr (Ident kp ''name'') (BasicLit vp (quoted s)) # others) rb"

definition sampleRows :: node where
  "sampleRows =
     CompositeLit (Some (OtherNode 60 [] 80)) 80
       [nameRow None 90 [] 91 97 [] 117 ''invalid snake case'',
        nameRow None 120 [] 121 127 [] 145 ''valid_snake_case''] 150"

definition tableRange :: "node \<Rightarrow> node" where
  "tableRange x =
     RangeStmt 160 (Some (Ident 164 ''_'')) (Some (Ident 167 ''tt'')) x
       (OtherNode 300 [OtherNode 310 [runCall 310 ''t'' (SelectorExpr (Ident 316 ''tt'') 319 ''name'')] 350] 360)"

definition tableVarPass :: pass where
  "tableVarPass =
     singleFile
       (OtherNode 1 [OtherNode 20
          [AssignStmt [Ident 50 ''tests''] DEFINE [sampleRows], tableRange (Ident 179 ''tests'')] 370] 380)
       [(''tests'', Var 1), (''tt'', Var 2)] (\<lambda>n. None)"









text \<open>A table whose two rows have the same invalid name, ranged over through a variable.\<close>

definition repeatedRows :: node where
  "repeatedRows =
     CompositeLit (Some (OtherNode 60 [] 80)) 80
       [nameRow None 90 [] 91 97 [] 117 ''Bad'', nameRow None 120 [] 121 127 [] 145 ''Bad''] 150"

definition repeatedRowsPass :: pass where
  "repeatedRowsPass =
     singleFile
       (OtherNode 1 [OtherNode 20
          [AssignStmt [Ident 50 ''tests''] DEFINE [repeatedRows], tableRange (Ident 179 ''tests'')] 370] 380)
       [(''tests'', Var 1), (''tt'', Var 2)] (\<lambda>n. None)"

section \<open>The matcher decides the language\<close>

lemma nil_in_conc: "[] \<in> conc A B \<longleftrightarrow> [] \<in> A \<and> [] \<in> B"
  by (auto simp: conc_def)

lemma cons_in_conc:
  "c # w \<in> conc A B \<longleftrightarrow>
     (\<exists>u v. w = u @ v \<and> c # u \<in> A \<and> v \<in> B) \<or> ([] \<in> A \<and> c # w \<in> B)"
proof
  assume "c # w \<in> conc A B"
  then obtain u v where uv: "c # w = u @ v" "u \<in> A" "v \<in> B"
    by (auto simp: conc_def)
  show "(\<exists>u v. w = u @ v \<and> c # u \<in> A \<and> v \<in> B) \<or> ([] \<in> A \<and> c # w \<in> B)"
  proof (cases u)
    case Nil
    with uv show ?thesis by simp
  next
    case (Cons a u')
    with uv have "w = u' @ v" "c # u' \<in> A" by auto
    with uv show ?thesis by blast
  qed
next
  assume "(\<exists>u v. w = u @ v \<and> c # u \<in> A \<and> v \<in> B) \<or> ([] \<in> A \<and> c # w \<in> B)"
  then show "c # w \<in> conc A B"
  proof
    assume "\<exists>u v. w = u @ v \<and> c # u \<in> A \<and> v \<in> B"
    then obtain u v where "w = u @ v" "c # u \<in> A" "v \<in> B" by blast
    then have "(c # u) @ v \<in> conc A B" unfolding conc_def by blast
    with \<open>w = u @ v\<close> show ?thesis by simp
  next
    assume "[] \<in> A \<and> c # w \<in> B"
    then have "[] @ (c # w) \<in> conc A B" unfolding conc_def by blast
    then show ?thesis by simp
  qed
qed

lemma star_cons_split:
  "x \<in> star A \<Longrightarrow> x = c # w \<Longrightarrow> \<exists>u v. w = u @ v \<and> c # u \<in> A \<and> v \<in> star A"
proof (induction arbitrary: w rule: star.induct)
  case star_empty
  then show ?case by simp
next
  case (star_step u v)
  show ?case
  proof (cases u)
    case Nil
    with star_step show ?thesis by simp
  next
    case (Cons a u')
    with star_step.prems have "w = u' @ v" "a = c" by auto
    with star_step.hyps Cons show ?thesis by blast
  qed
qed

lemma cons_in_star:
  "c # w \<in> star A \<longleftrightarrow> (\<exists>u v. w = u @ v \<and> c # u \<in> A \<and> v \<in> star A)"
proof
  assume "c # w \<in> star A"
  then show "\<exists>u v. w = u @ v \<and> c # u \<in> A \<and> v \<in> star A"
    using star_cons_split by blast
next
  assume "\<exists>u v. w = u @ v \<and> c # u \<in> A \<and> v \<in> star A"
  then obtain u v where "w = u @ v" "c # u \<in> A" "v \<in> star A" by blast
  then have "(c # u) @ v \<in> star A" by (blast intro: star_step)
  with \<open>w = u @ v\<close> show "c # w \<in> star A" by simp
qed

lemma nullable_lang: "nullable r \<longleftrightarrow> [] \<in> lang r"
  by (induction r) (auto simp: nil_in_conc intro: star_empty)

lemma in_conc_left_deriv:
  "w \<in> conc {u. c # u \<in> A} B \<longleftrightarrow> (\<exists>u v. w = u @ v \<and> c # u \<in> A \<and> v \<in> B)"
  by (auto simp: conc_def)

lemma deriv_lang: "lang (deriv c r) = {w. c # w \<in> lang r}"
proof (induction r)
  case (Cat r s)
  have "w \<in> lang (deriv c (Cat r s)) \<longleftrightarrow> c # w \<in> lang (Cat r s)" for w
  proof -
    have L: "w \<in> conc (lang (deriv c r)) (lang s) \<longleftrightarrow>
             (\<exists>u v. w = u @ v \<and> c # u \<in> lang r \<and> v \<in> lang s)"
      unfolding Cat.IH(1) by (rule in_conc_left_deriv)
    show ?thesis
      by (cases "nullable r") (simp_all add: L cons_in_conc nullable_lang Cat.IH(2))
  qed
  then show ?case by blast
next
  case (Star r)
  have "w \<in> lang (deriv c (Star r)) \<longleftrightarrow> c # w \<in> lang (Star r)" for w
  proof -
    have "w \<in> conc (lang (deriv c r)) (star (lang r)) \<longleftrightarrow>
          (\<exists>u v. w = u @ v \<and> c # u \<in> lang r \<and> v \<in> star (lang r))"
      unfolding Star.IH by (rule in_conc_left_deriv)
    then show ?thesis by (simp add: cons_in_star)
  qed
  then show ?case by blast
next
  case (Plus r)
  have "w \<in> lang (deriv c (Plus r)) \<longleftrightarrow> c # w \<in> lang (Plus r)" for w
  proof -
    have "w \<in> conc (lang (deriv c r)) (star (lang r)) \<longleftrightarrow>
          (\<exists>u v. w = u @ v \<and> c # u \<in> lang r \<and> v \<in> star (lang r))"
      unfolding Plus.IH by (rule in_conc_left_deriv)
    moreover have "c # w \<in> conc (lang r) (star (lang r)) \<longleftrightarrow>
          (\<exists>u v. w = u @ v \<and> c # u \<in> lang r \<and> v \<in> star (lang r))"
      by (auto simp: cons_in_conc cons_in_star)
    ultimately show ?thesis by simp
  qed
  then show ?case by blast
qed auto

lemma matchAnchored_lang: "matchAnchored r s \<longleftrightarrow> s \<in> lang r"
  by (induction s arbitrary: r) (simp_all add: nullable_lang deriv_lang)

lemma lang_class: "lang lowerOrDigitClass = {[c] | c. lowerOrDigit c}"
  by (auto simp: lowerOrDigitClass_def lowerOrDigit_def)

lemma star_singletons: "v \<in> star {[c] | c. P c} \<longleftrightarrow> list_all P v"
proof
  assume "v \<in> star {[c] | c. P c}"
  then show "list_all P v"
    by (induction rule: star.induct) auto
next
  assume "list_all P v"
  then show "v \<in> star {[c] | c. P c}"
  proof (induction v)
    case Nil
    show ?case by (rule star_empty)
  next
    case (Cons c v)
    then have "[c] \<in> {[c] | c. P c}" "v \<in> star {[c] | c. P c}" by auto
    then have "[c] @ v \<in> star {[c] | c. P c}" by (rule star_step)
    then show ?case by simp
  qed
qed

lemma in_conc_singletons:
  "w \<in> conc {[c] | c. P c} B \<longleftrightarrow> (\<exists>c v. w = c # v \<and> P c \<and> v \<in> B)"
proof
  assume "w \<in> conc {[c] | c. P c} B"
  then show "\<exists>c v. w = c # v \<and> P c \<and> v \<in> B"
    by (auto simp: conc_def)
next
  assume "\<exists>c v. w = c # v \<and> P c \<and> v \<in> B"
  then obtain c v where "w = [c] @ v" "[c] \<in> {[c] | c. P c}" "v \<in> B" by auto
  then show "w \<in> conc {[c] | c. P c} B"
    unfolding conc_def by blast
qed

lemma lang_run: "w \<in> lang (Plus lowerOrDigitClass) \<longleftrightarrow> isRun w"
proof -
  have "w \<in> conc {[c] | c. lowerOrDigit c} (star {[c] | c. lowerOrDigit c}) \<longleftrightarrow>
        (\<exists>c v. w = c # v \<and> lowerOrDigit c \<and> list_all lowerOrDigit v)"
    by (simp add: in_conc_singletons star_singletons)
  also have "\<dots> \<longleftrightarrow> isRun w"
    by (cases w) (auto simp: isRun_def)
  finally show ?thesis by (simp add: lang_class)
qed

lemma lang_tail:
  "v \<in> star (conc {[95]} {r. isRun r}) \<longleftrightarrow>
     (\<exists>rs. list_all isRun rs \<and> v = concat (map ((#) 95) rs))"
proof
  assume "v \<in> star (conc {[95]} {r. isRun r})"
  then show "\<exists>rs. list_all isRun rs \<and> v = concat (map ((#) 95) rs)"
  proof (induction rule: star.induct)
    case star_empty
    have "list_all isRun [] \<and> [] = concat (map ((#) 95) [])" by simp
    then show ?case by blast
  next
    case (star_step u v)
    then obtain r rs where "u = 95 # r" "isRun r" "list_all isRun rs"
      "v = concat (map ((#) 95) rs)"
      by (auto simp: conc_def)
    then have "list_all isRun (r # rs) \<and> u @ v = concat (map ((#) 95) (r # rs))" by simp
    then show ?case by blast
  qed
next
  assume "\<exists>rs. list_all isRun rs \<and> v = concat (map ((#) 95) rs)"
  then obtain rs where "list_all isRun rs" "v = concat (map ((#) 95) rs)" by blast
  then show "v \<in> star (conc {[95]} {r. isRun r})"
  proof (induction rs arbitrary: v)
    case Nil
    then show ?case by (simp add: star_empty)
  next
    case (Cons r rs)
    then have "95 # r \<in> conc {[95]} {r. isRun r}"
      by (auto simp: conc_def)
    moreover have "concat (map ((#) 95) rs) \<in> star (conc {[95]} {r. isRun r})"
      using Cons by simp
    ultimately have "(95 # r) @ concat (map ((#) 95) rs) \<in> star (conc {[95]} {r. isRun r})"
      by (rule star_step)
    with Cons.prems show ?case by simp
  qed
qed

lemma in_conc: "w \<in> conc A B \<longleftrightarrow> (\<exists>u v. w = u @ v \<and> u \<in> A \<and> v \<in> B)"
  unfolding conc_def by blast

lemma lang_snakeCasePattern:
  "s \<in> lang snakeCasePattern \<longleftrightarrow>
     (\<exists>r rs. list_all isRun (r # rs) \<and> s = r @ concat (map ((#) 95) rs))"
proof -
  have run: "lang (Plus lowerOrDigitClass) = {r. isRun r}"
    using lang_run by blast
  have us: "lang (Range 95 95) = {[95]}"
    by (auto intro: le_antisym)
  have "lang snakeCasePattern = conc {r. isRun r} (star (conc {[95]} {r. isRun r}))"
    by (simp only: snakeCasePattern_def lang.simps(5) lang.simps(6) run us)
  then have "s \<in> lang snakeCasePattern \<longleftrightarrow>
      (\<exists>r v. s = r @ v \<and> isRun r \<and> v \<in> star (conc {[95]} {r. isRun r}))"
    by (simp only: in_conc mem_Collect_eq)
  also have "\<dots> \<longleftrightarrow> (\<exists>r v. s = r @ v \<and> isRun r \<and>
      (\<exists>rs. list_all isRun rs \<and> v = concat (map ((#) 95) rs)))"
    by (simp only: lang_tail)
  also have "\<dots> \<longleftrightarrow> (\<exists>r rs. list_all isRun (r # rs) \<and> s = r @ concat (map ((#) 95) rs))"
    by (simp only: list.pred_inject) blast
  finally show ?thesis .
qed

section \<open>The pattern and the grammar\<close>

lemma splitOn_not_Nil: "splitOn d s \<noteq> []"
  by (induction s) (auto split: list.splits)

lemma splitOn_join: "splitOn d s = r # rs \<Longrightarrow> s = r @ concat (map ((#) d) rs)"
proof (induction s arbitrary: r rs)
  case Nil
  then show ?case by simp
next
  case (Cons c cs)
  show ?case
  proof (cases "c = d")
    case True
    with Cons.prems have "r = []" "splitOn d cs = rs" by auto
    with Cons.IH True splitOn_not_Nil [of d cs] show ?thesis
      by (cases rs) auto
  next
    case False
    with Cons.prems splitOn_not_Nil [of d cs] obtain r' where
      "splitOn d cs = r' # rs" "r = c # r'"
      by (auto split: list.splits)
    with Cons.IH show ?thesis by simp
  qed
qed

lemma splitOn_no_delim: "d \<notin> set r \<Longrightarrow> splitOn d r = [r]"
  by (induction r) auto

lemma join_splitOn:
  "d \<notin> set r \<Longrightarrow> \<forall>x \<in> set rs. d \<notin> set x \<Longrightarrow>
   splitOn d (r @ concat (map ((#) d) rs)) = r # rs"
proof (induction rs arbitrary: r)
  case Nil
  then show ?case by (simp add: splitOn_no_delim)
next
  case (Cons x xs)
  have tail: "splitOn d (x @ concat (map ((#) d) xs)) = x # xs"
    using Cons.IH [of x] Cons.prems by simp
  from Cons.prems(1) show ?case
  proof (induction r)
    case Nil
    then show ?case using tail by simp
  next
    case (Cons c r)
    then show ?case by simp
  qed
qed

lemma lowerOrDigit_not_underscore: "lowerOrDigit c \<Longrightarrow> c \<noteq> 95"
  by (auto simp: lowerOrDigit_def)

lemma isRun_no_underscore: "isRun r \<Longrightarrow> 95 \<notin> set r"
  by (auto simp: isRun_def list_all_iff dest: lowerOrDigit_not_underscore)

lemma snakeCasePattern_runs: "matchAnchored snakeCasePattern s \<longleftrightarrow> snakeRuns s"
proof
  assume "matchAnchored snakeCasePattern s"
  then obtain r rs where ok: "list_all isRun (r # rs)" and s: "s = r @ concat (map ((#) 95) rs)"
    by (auto simp: matchAnchored_lang lang_snakeCasePattern)
  from ok have "95 \<notin> set r" "\<forall>x \<in> set rs. 95 \<notin> set x"
    by (auto simp: list_all_iff isRun_no_underscore)
  then have "splitOn 95 s = r # rs"
    unfolding s by (rule join_splitOn)
  with ok show "snakeRuns s" by (simp add: snakeRuns_def)
next
  assume runs: "snakeRuns s"
  obtain r rs where sp: "splitOn 95 s = r # rs"
    using splitOn_not_Nil [of 95 s] by (cases "splitOn 95 s") auto
  then have "s = r @ concat (map ((#) 95) rs)" by (rule splitOn_join)
  moreover from runs sp have "list_all isRun (r # rs)" by (simp add: snakeRuns_def)
  ultimately show "matchAnchored snakeCasePattern s"
    unfolding matchAnchored_lang lang_snakeCasePattern by blast
qed

lemma hasUpper_iff: "hasUpper U s \<longleftrightarrow> (\<exists>c \<in> set s. IsUpper U c)"
  by (induction s) auto

lemma lowerOrDigit_not_upper: "lowerOrDigit c \<Longrightarrow> \<not> IsUpper U c"
  by (auto simp: lowerOrDigit_def IsUpper_def)

lemma underscore_not_upper: "\<not> IsUpper U 95"
  by (simp add: IsUpper_def)

lemma splitOn_alphabet:
  "list_all (list_all P) (splitOn d s) \<Longrightarrow> c \<in> set s \<Longrightarrow> P c \<or> c = d"
proof (induction s)
  case Nil
  then show ?case by simp
next
  case (Cons a s)
  then show ?case
    using splitOn_not_Nil [of d s]
    by (cases "a = d") (auto split: list.splits)
qed

lemma snakeRuns_alphabet: "snakeRuns s \<Longrightarrow> c \<in> set s \<Longrightarrow> lowerOrDigit c \<or> c = 95"
proof -
  assume a: "snakeRuns s" "c \<in> set s"
  then have "list_all (list_all lowerOrDigit) (splitOn 95 s)"
    by (auto simp: snakeRuns_def isRun_def list_all_iff)
  with a show ?thesis by (rule_tac splitOn_alphabet)
qed

lemma snakeRuns_no_upper: "snakeRuns s \<Longrightarrow> \<not> hasUpper U s"
  using snakeRuns_alphabet lowerOrDigit_not_upper underscore_not_upper
  unfolding hasUpper_iff by blast

lemma snakeRuns_not_Nil: "snakeRuns s \<Longrightarrow> s \<noteq> []"
  by (auto simp: snakeRuns_def isRun_def)

lemma isValidSnakeCase_runs: "isValidSnakeCase U s \<longleftrightarrow> snakeRuns s"
  using snakeRuns_no_upper [of s U] snakeRuns_not_Nil [of s]
  by (auto simp: isValidSnakeCase_def snakeCasePattern_runs)

lemma snakeRuns_no_leading: "snakeRuns s \<Longrightarrow> hd s \<noteq> 95"
  by (cases s) (auto simp: snakeRuns_def isRun_def)

lemma splitOn_snoc_delim: "splitOn d (s @ [d]) = splitOn d s @ [[]]"
proof (induction s)
  case Nil
  show ?case by simp
next
  case (Cons a s)
  then show ?case
    using splitOn_not_Nil [of d s]
    by (cases "splitOn d s") auto
qed

lemma splitOn_last: "s \<noteq> [] \<Longrightarrow> last s = d \<Longrightarrow> last (splitOn d s) = []"
proof -
  assume "s \<noteq> []" "last s = d"
  then have "butlast s @ [d] = s" using append_butlast_last_id [of s] by simp
  moreover have "last (splitOn d (butlast s @ [d])) = []"
    by (simp only: splitOn_snoc_delim last_snoc)
  ultimately show ?thesis by (simp only:)
qed

lemma snakeRuns_no_trailing: "snakeRuns s \<Longrightarrow> last s \<noteq> 95"
proof
  assume a: "snakeRuns s" "last s = 95"
  then have "s \<noteq> []" by (simp add: snakeRuns_not_Nil)
  with a have "last (splitOn 95 s) = []" by (simp add: splitOn_last)
  moreover have "last (splitOn 95 s) \<in> set (splitOn 95 s)"
    using splitOn_not_Nil by simp
  ultimately show False using a(1)
    by (auto simp: snakeRuns_def isRun_def list_all_iff)
qed

lemma splitOn_doubled:
  "list_all (\<lambda>r. r \<noteq> []) (tl (splitOn d s)) \<Longrightarrow> \<not> doubled d s"
proof (induction d s rule: doubled.induct)
  case (1 d a b cs)
  then show ?case
    using splitOn_not_Nil [of d cs] splitOn_not_Nil [of d "b # cs"]
    by (auto split: list.splits if_splits)
qed simp_all

lemma snakeRuns_no_doubled: "snakeRuns s \<Longrightarrow> \<not> doubled 95 s"
proof -
  assume "snakeRuns s"
  then have "list_all (\<lambda>r. r \<noteq> []) (tl (splitOn 95 s))"
    using splitOn_not_Nil [of 95 s]
    by (cases "splitOn 95 s") (auto simp: snakeRuns_def isRun_def list_all_iff)
  then show ?thesis by (rule splitOn_doubled)
qed

lemma snakeRuns_has_other: "snakeRuns s \<Longrightarrow> \<exists>c \<in> set s. c \<noteq> 95"
  using snakeRuns_no_leading [of s] snakeRuns_not_Nil [of s]
  by (cases s) auto

lemmas validator_defs =
  isValidSnakeCase_def ascii_def IsUpper_def snakeCasePattern_def lowerOrDigitClass_def

text \<open>
  C1. For every string and every table of upper-case code points, \<open>isValidSnakeCase\<close> holds
  exactly when the string splits at its underscores into non-empty runs of lower-case
  letters and digits. A valid string then has no leading, no trailing and no doubled
  underscore, has a character that is not an underscore, and has no upper-case code point.
  The seven examples of the specification evaluate as stated.
\<close>

theorem isValidSnakeCase_grammar:
  "(isValidSnakeCase U s \<longleftrightarrow> snakeRuns s) \<and>
   (isValidSnakeCase U s \<longrightarrow>
      hd s \<noteq> 95 \<and> last s \<noteq> 95 \<and> \<not> doubled 95 s \<and> (\<exists>c \<in> set s. c \<noteq> 95) \<and> \<not> hasUpper U s) \<and>
   isValidSnakeCase U (ascii ''add_positive_numbers'') \<and>
   \<not> isValidSnakeCase U (ascii ''AddPositiveNumbers'') \<and>
   \<not> isValidSnakeCase U (ascii ''_leading'') \<and>
   \<not> isValidSnakeCase U (ascii ''trailing_'') \<and>
   \<not> isValidSnakeCase U (ascii ''double__underscore'') \<and>
   isValidSnakeCase U (ascii ''test123'') \<and>
   \<not> isValidSnakeCase U (ascii '''')"
proof (intro conjI)
  show "isValidSnakeCase U s \<longleftrightarrow> snakeRuns s"
    by (rule isValidSnakeCase_runs)
  show "isValidSnakeCase U s \<longrightarrow>
      hd s \<noteq> 95 \<and> last s \<noteq> 95 \<and> \<not> doubled 95 s \<and> (\<exists>c \<in> set s. c \<noteq> 95) \<and> \<not> hasUpper U s"
    unfolding isValidSnakeCase_runs
    using snakeRuns_no_leading snakeRuns_no_trailing snakeRuns_no_doubled
      snakeRuns_has_other snakeRuns_no_upper
    by blast
  show "isValidSnakeCase U (ascii ''add_positive_numbers'')"
    by (simp add: validator_defs)
  show "\<not> isValidSnakeCase U (ascii ''AddPositiveNumbers'')"
    by (simp add: validator_defs)
  show "\<not> isValidSnakeCase U (ascii ''_leading'')"
    by (simp add: validator_defs)
  show "\<not> isValidSnakeCase U (ascii ''trailing_'')"
    by (simp add: validator_defs)
  show "\<not> isValidSnakeCase U (ascii ''double__underscore'')"
    by (simp add: validator_defs)
  show "isValidSnakeCase U (ascii ''test123'')"
    by (simp add: validator_defs)
  show "\<not> isValidSnakeCase U (ascii '''')"
    by (simp add: validator_defs)
qed

theorem isValidSnakeCase_grammar_witness:
  "isValidSnakeCase (\<lambda>r. False) (ascii ''http2_handler'') \<and>
   snakeRuns (ascii ''http2_handler'') \<and>
   hd (ascii ''http2_handler'') \<noteq> 95 \<and> last (ascii ''http2_handler'') \<noteq> 95 \<and>
   \<not> doubled 95 (ascii ''http2_handler'') \<and>
   \<not> hasUpper (\<lambda>r. False) (ascii ''http2_handler'')"
proof -
  have v: "isValidSnakeCase (\<lambda>r. False) (ascii ''http2_handler'')"
    by (simp add: validator_defs)
  with isValidSnakeCase_grammar [of "\<lambda>r. False" "ascii ''http2_handler''"]
  show ?thesis by blast
qed

text \<open>
  C9. For every string, \<open>isValidSnakeCase\<close> gives the result of the anchored pattern alone:
  a string the pattern accepts is not empty and has no upper-case code point, so the two
  earlier tests never change the outcome. (The function has the same text in both
  analyser files.)
\<close>

theorem isValidSnakeCase_is_pattern:
  "isValidSnakeCase U s = matchAnchored snakeCasePattern s \<and>
   (matchAnchored snakeCasePattern s \<longrightarrow> s \<noteq> [] \<and> \<not> hasUpper U s)"
  using snakeRuns_no_upper [of s U] snakeRuns_not_Nil [of s]
  by (auto simp: isValidSnakeCase_def snakeCasePattern_runs)

theorem isValidSnakeCase_is_pattern_witness:
  "matchAnchored snakeCasePattern (ascii ''a_1'') \<and>
   isValidSnakeCase (\<lambda>r. r = 201) (ascii ''a_1'') \<and>
   \<not> hasUpper (\<lambda>r. r = 201) (ascii ''a_1'') \<and>
   \<not> matchAnchored snakeCasePattern [201, 97] \<and>
   \<not> isValidSnakeCase (\<lambda>r. r = 201) [201, 97]"
proof -
  have m: "matchAnchored snakeCasePattern (ascii ''a_1'')"
    by (simp add: validator_defs)
  have n: "\<not> matchAnchored snakeCasePattern [201, 97]"
    by (simp add: validator_defs)
  from m n isValidSnakeCase_is_pattern [of "\<lambda>r. r = 201" "ascii ''a_1''"]
    isValidSnakeCase_is_pattern [of "\<lambda>r. r = 201" "[201, 97]"]
  show ?thesis by blast
qed

section \<open>Traversal\<close>

declare inspect.simps [simp del] preorder.simps [simp del]

lemma preorder_children: "c \<in> set (children n) \<Longrightarrow> set (preorder c) \<subseteq> set (preorder n)"
  by (subst (2) preorder.simps) auto

lemma preorder_self: "n \<in> set (preorder n)"
  by (subst preorder.simps) simp

lemma fold_invariant:
  "I s \<Longrightarrow> (\<And>c t. c \<in> set cs \<Longrightarrow> I t \<Longrightarrow> I (g c t)) \<Longrightarrow> I (fold g cs s)"
  by (induction cs arbitrary: s) auto

lemma inspect_invariant:
  "I s \<Longrightarrow> (\<And>m t. m \<in> set (preorder n) \<Longrightarrow> I t \<Longrightarrow> I (snd (f m t))) \<Longrightarrow> I (inspect f n s)"
proof (induction n arbitrary: s rule: preorder.induct)
  case (1 n)
  obtain b s' where fs: "f n s = (b, s')" by (cases "f n s")
  have s': "I s'"
    using "1.prems"(2) [OF preorder_self "1.prems"(1)] fs by simp
  show ?case
  proof (cases b)
    case False
    with fs s' show ?thesis by (simp add: inspect.simps [of f n s])
  next
    case True
    have "I (fold (inspect f) (children n) s')"
    proof (rule fold_invariant [where I = I, OF s'])
      fix c t
      assume c: "c \<in> set (children n)" and t: "I t"
      show "I (inspect f c t)"
      proof (rule "1.IH" [OF c t])
        fix m u
        assume "m \<in> set (preorder c)" "I u"
        then show "I (snd (f m u))"
          using "1.prems"(2) preorder_children [OF c] by blast
      qed
    qed
    with fs True show ?thesis by (simp add: inspect.simps [of f n s])
  qed
qed

lemma inspect_skip:
  "(\<And>m. m \<in> set (preorder n) \<Longrightarrow> f m s = (True, s)) \<Longrightarrow> inspect f n s = s"
  by (rule inspect_invariant [where I = "\<lambda>t. t = s"]) auto

lemma fold_concat_map: "fold g (concat (map h cs)) s = fold (\<lambda>c. fold g (h c)) cs s"
  by (induction cs arbitrary: s) auto

lemma inspect_preorder:
  "(\<And>m t. fst (f m t)) \<Longrightarrow> inspect f n s = fold (\<lambda>m t. snd (f m t)) (preorder n) s"
proof (induction n arbitrary: s rule: preorder.induct)
  case (1 n)
  obtain s' where fs: "f n s = (True, s')"
    using "1.prems" [of n s] by (cases "f n s") auto
  have "fold (inspect f) (children n) s' =
        fold (\<lambda>c. fold (\<lambda>m t. snd (f m t)) (preorder c)) (children n) s'"
  proof (rule fold_cong [OF refl refl])
    fix c
    assume c: "c \<in> set (children n)"
    show "inspect f c = fold (\<lambda>m t. snd (f m t)) (preorder c)"
    proof
      fix t
      show "inspect f c t = fold (\<lambda>m t. snd (f m t)) (preorder c) t"
        by (rule "1.IH" [OF c "1.prems"])
    qed
  qed
  also have "\<dots> = fold (\<lambda>m t. snd (f m t)) (concat (map preorder (children n))) s'"
    by (simp add: fold_concat_map)
  finally show ?case
    using fs by (simp add: inspect.simps [of f n s] preorder.simps [of n])
qed

section \<open>The result of \<open>run\<close>, node by node\<close>

lemma reportCases_append: "reportCases U tcs ds = ds @ reportCases U tcs []"
proof (induction tcs arbitrary: ds)
  case Nil
  show ?case by simp
next
  case (Cons tc tcs)
  obtain v p where tc: "tc = (v, p)" by (cases tc)
  show ?case
    using Cons [of "ds @ [Diagnostic p v]"] Cons [of "[Diagnostic p v]"] Cons [of ds]
    by (simp add: tc)
qed

lemma runTable_append:
  "runTable U P a ds = (fst (runTable U P a []), ds @ snd (runTable U P a []))"
  using reportCases_append [of U _ ds]
  by (auto simp: runTable_def Let_def split: option.splits)

lemma runDirect_append: "runDirect U P n a ds = ds @ runDirect U P n a []"
  by (simp add: runDirect_def Let_def)

lemma runVisit_not_candidate: "candidateArg P n = None \<Longrightarrow> runVisit U P n ds = (True, ds)"
  by (auto simp: candidateArg_def runVisit_def split: option.splits if_splits)

lemma runVisit_candidate:
  "candidateArg P n = Some a \<Longrightarrow>
   runVisit U P n ds =
     (True, case runTable U P a ds of (True, ds') \<Rightarrow> ds' | (False, ds') \<Rightarrow> runDirect U P n a ds')"
  by (auto simp: candidateArg_def runVisit_def Let_def split: option.splits if_splits prod.splits bool.splits)

lemma runVisit_eq: "runVisit U P n ds = (True, ds @ callDiags U P n)"
proof (cases "candidateArg P n")
  case None
  then show ?thesis
    by (simp add: callDiags_def runVisit_not_candidate)
next
  case (Some a)
  obtain b t where rt: "runTable U P a [] = (b, t)" by (cases "runTable U P a []")
  then have rt': "runTable U P a ds = (b, ds @ t)"
    using runTable_append [of U P a ds] by simp
  show ?thesis
  proof (cases b)
    case True
    with Some rt rt' show ?thesis
      by (simp add: callDiags_def runVisit_candidate)
  next
    case False
    with Some rt rt' show ?thesis
      using runDirect_append [of U P n a "ds @ t"] runDirect_append [of U P n a t]
      by (simp add: callDiags_def runVisit_candidate)
  qed
qed

lemma callDiags_not_candidate: "candidateArg P n = None \<Longrightarrow> callDiags U P n = []"
  by (simp add: callDiags_def runVisit_not_candidate)

lemma callDiags_candidate:
  "candidateArg P n = Some a \<Longrightarrow>
   callDiags U P n =
     (case runTable U P a [] of (True, ds) \<Rightarrow> ds | (False, ds) \<Rightarrow> runDirect U P n a ds)"
  by (simp add: callDiags_def runVisit_candidate)

lemma fold_runVisit:
  "fold (\<lambda>m t. snd (runVisit U P m t)) ns ds = ds @ concat (map (callDiags U P) ns)"
  by (induction ns arbitrary: ds) (simp_all add: runVisit_eq)

lemma inspect_runVisit: "inspect (runVisit U P) n ds = ds @ concat (map (callDiags U P) (preorder n))"
proof -
  have "inspect (runVisit U P) n ds = fold (\<lambda>m t. snd (runVisit U P m t)) (preorder n) ds"
    by (rule inspect_preorder) (simp add: runVisit_eq)
  then show ?thesis by (simp add: fold_runVisit)
qed

lemma runFiles_eq:
  "runFiles U P files ds = ds @ concat (map (fileDiags U P) (filter isTestFile files))"
  by (induction files arbitrary: ds) (simp_all add: inspect_runVisit fileDiags_def isTestFile_def)

lemma run_fileDiags: "run U P = concat (map (fileDiags U P) (filter isTestFile (Files P)))"
  by (simp add: run_def runFiles_eq)

lemma callDiags_in_run:
  "file \<in> set (Files P) \<Longrightarrow> isTestFile file \<Longrightarrow> n \<in> set (preorder (fileRoot file)) \<Longrightarrow>
   set (callDiags U P n) \<subseteq> set (run U P)"
  by (auto simp: run_fileDiags fileDiags_def)

lemma run_from_callDiags:
  "d \<in> set (run U P) \<Longrightarrow>
   \<exists>file \<in> set (Files P). isTestFile file \<and> (\<exists>n \<in> set (preorder (fileRoot file)). d \<in> set (callDiags U P n))"
  by (auto simp: run_fileDiags fileDiags_def)

section \<open>Candidate calls\<close>

lemma Trim_quoted_text:
  "s = [] \<or> (hd s \<noteq> 34 \<and> last s \<noteq> 34) \<Longrightarrow> Trim (34 # s @ [34]) quote = s"
proof (cases s rule: rev_cases)
  case Nil
  then show ?thesis by (simp add: Trim_def quote_def)
next
  case (snoc ys y)
  assume "s = [] \<or> (hd s \<noteq> 34 \<and> last s \<noteq> 34)"
  with snoc have h: "hd (ys @ [y]) \<noteq> 34" and l: "y \<noteq> 34" by auto
  with snoc show ?thesis
    by (cases ys) (auto simp: Trim_def quote_def)
qed

lemma asBasicLit_Some: "asBasicLit n = Some (p, v) \<longleftrightarrow> n = BasicLit p v"
  by (cases n) auto

lemma asIdent_Some: "asIdent n = Some (p, nm) \<longleftrightarrow> n = Ident p nm"
  by (cases n) auto

lemma asSelectorExpr_Some: "asSelectorExpr n = Some (x, sp, sn) \<longleftrightarrow> n = SelectorExpr x sp sn"
  by (cases n) auto

lemma asCallExpr_Some: "asCallExpr n = Some (fn, args, rp) \<longleftrightarrow> n = CallExpr fn args rp"
  by (cases n) auto

lemma asCompositeLit_Some: "asCompositeLit n = Some elts \<longleftrightarrow> (\<exists>ty lb rb. n = CompositeLit ty lb elts rb)"
  by (cases n) auto

lemma asKeyValueExpr_Some: "asKeyValueExpr n = Some (k, v) \<longleftrightarrow> n = KeyValueExpr k v"
  by (cases n) auto

lemma asRangeStmt_Some: "asRangeStmt n = Some (v, x) \<longleftrightarrow> (\<exists>fp k body. n = RangeStmt fp k v x body)"
  by (cases n) auto

lemma asAssignStmt_Some: "asAssignStmt n = Some (lhs, rhs) \<longleftrightarrow> (\<exists>tok. n = AssignStmt lhs tok rhs)"
  by (cases n) auto

lemma asValueSpec_Some: "asValueSpec n = Some (names, vals) \<longleftrightarrow> (\<exists>ty. n = ValueSpec names ty vals)"
  by (cases n) auto

lemma candidateArg_Some:
  "candidateArg P n = Some a \<longleftrightarrow>
     (\<exists>x sp args rp. n = CallExpr (SelectorExpr x sp ''Run'') args rp \<and> isTestingType P x \<and>
        2 \<le> length args \<and> a = args ! 0)"
  by (auto simp: candidateArg_def asCallExpr_Some asSelectorExpr_Some split: option.splits)

lemma runTable_eq:
  "runTable U P a ds = (tableCases P a \<noteq> [], reportCases U (tableCases P a) ds)"
  by (auto simp: runTable_def tableCases_def Let_def split: option.splits)

lemma callDiags_cases:
  "candidateArg P n = Some a \<Longrightarrow>
   callDiags U P n =
     (if tableCases P a \<noteq> [] then reportCases U (tableCases P a) []
      else runDirect U P n a [])"
  by (simp add: callDiags_candidate runTable_eq)

lemma candidateArg_call:
  "isTestingType P x \<Longrightarrow>
   candidateArg P (CallExpr (SelectorExpr x sp ''Run'') (a # b # rest) rp) = Some a"
  by (simp add: candidateArg_def)

lemma eval_BasicLit: "eval P (BasicLit lp lv) = (Trim lv quote, True)"
  by (simp add: eval_def)

lemma tableCases_BasicLit: "tableCases P (BasicLit lp lv) = []"
  by (simp add: tableCases_def)

text \<open>
  C5. A call \<open>obj.Run(...)\<close> (indeed any method call) whose receiver's type text is none of
  \<open>*testing.T\<close>, \<open>*testing.B\<close>, \<open>*testing.F\<close> reports nothing, whatever its arguments; and a
  pass in which every method call has such a receiver reports nothing at all. The test is
  the equality of the type's text with one of the three, nothing structural.
\<close>

theorem decoy_receiver_ignored:
  "(TypeOf P x \<noteq> Some ''*testing.T'' \<and> TypeOf P x \<noteq> Some ''*testing.B'' \<and>
    TypeOf P x \<noteq> Some ''*testing.F'' \<longrightarrow>
      callDiags U P (CallExpr (SelectorExpr x sp sn) args rp) = []) \<and>
   ((\<forall>file \<in> set (Files P). \<forall>n \<in> set (preorder (fileRoot file)).
       \<forall>y yp yn args' rp'. n = CallExpr (SelectorExpr y yp yn) args' rp' \<longrightarrow>
         TypeOf P y \<noteq> Some ''*testing.T'' \<and> TypeOf P y \<noteq> Some ''*testing.B'' \<and>
         TypeOf P y \<noteq> Some ''*testing.F'') \<longrightarrow>
      run U P = [])"
proof (intro conjI impI)
  assume "TypeOf P x \<noteq> Some ''*testing.T'' \<and> TypeOf P x \<noteq> Some ''*testing.B'' \<and>
    TypeOf P x \<noteq> Some ''*testing.F''"
  then have "\<not> isTestingType P x"
    by (auto simp: isTestingType_def split: option.splits)
  then have "candidateArg P (CallExpr (SelectorExpr x sp sn) args rp) = None"
    by (simp add: candidateArg_def)
  then show "callDiags U P (CallExpr (SelectorExpr x sp sn) args rp) = []"
    by (rule callDiags_not_candidate)
next
  assume a: "\<forall>file \<in> set (Files P). \<forall>n \<in> set (preorder (fileRoot file)).
       \<forall>y yp yn args' rp'. n = CallExpr (SelectorExpr y yp yn) args' rp' \<longrightarrow>
         TypeOf P y \<noteq> Some ''*testing.T'' \<and> TypeOf P y \<noteq> Some ''*testing.B'' \<and>
         TypeOf P y \<noteq> Some ''*testing.F''"
  have "callDiags U P n = []"
    if "fl \<in> set (Files P)" "n \<in> set (preorder (fileRoot fl))" for fl n
  proof (rule callDiags_not_candidate)
    show "candidateArg P n = None"
    proof (cases "candidateArg P n")
      case None
      then show ?thesis .
    next
      case (Some arg)
      then obtain y yp args' rp' where n: "n = CallExpr (SelectorExpr y yp ''Run'') args' rp'"
        and t: "isTestingType P y"
        unfolding candidateArg_Some by blast
      from a that n have "TypeOf P y \<noteq> Some ''*testing.T'' \<and> TypeOf P y \<noteq> Some ''*testing.B'' \<and>
         TypeOf P y \<noteq> Some ''*testing.F''" by blast
      with t show ?thesis
        by (auto simp: isTestingType_def split: option.splits)
    qed
  qed
  then show "run U P = []"
    by (auto simp: run_fileDiags fileDiags_def)
qed

lemma reportCases_eq:
  "reportCases U tcs ds =
     ds @ map (\<lambda>(v, p). Diagnostic p v) (filter (\<lambda>(v, p). v \<noteq> [] \<and> \<not> isValidSnakeCase U v) tcs)"
  by (induction tcs arbitrary: ds) auto

lemma extractRows_eq:
  "extractRows P elts field vals = vals @ concat (map (rowValue P field) elts)"
  by (induction elts arbitrary: vals) (auto simp: rowValue_def split: option.splits prod.splits)

lemma extractRows_nonempty:
  "(v, p) \<in> set (extractRows P elts field []) \<Longrightarrow> v \<noteq> []"
  by (auto simp: extractRows_eq rowValue_def split: option.splits prod.splits if_splits)

lemma tableCases_nonempty: "(v, p) \<in> set (tableCases P a) \<Longrightarrow> v \<noteq> []"
  using extractRows_nonempty [of v p P]
  by (auto simp: tableCases_def extractValuesWithPosFromRange_def split: option.splits)

lemma runDirect_eq:
  "runDirect U P n a [] =
     (if snd (eval P a) \<and> fst (eval P a) \<noteq> [] \<and> \<not> isValidSnakeCase U (fst (eval P a))
      then [Diagnostic (nodePos n) (fst (eval P a))] else [])"
proof -
  obtain v b where e: "eval P a = (v, b)" by (cases "eval P a")
  show ?thesis
    by (cases b) (simp_all add: e runDirect_def strVal_def Let_def)
qed

lemma callDiags_names_nonempty:
  assumes "Diagnostic q w \<in> set (callDiags U P n)"
  shows "w \<noteq> []"
proof (cases "candidateArg P n")
  case None
  with assms show ?thesis by (simp add: callDiags_not_candidate)
next
  case (Some a)
  show ?thesis
  proof (cases "tableCases P a = []")
    case True
    with assms Some show ?thesis
      by (simp add: callDiags_cases runDirect_eq split: if_splits)
  next
    case False
    with assms Some show ?thesis
      by (auto simp: callDiags_cases reportCases_eq)
  qed
qed

text \<open>The decoy of C5: \<open>runner.Run("NotATest", f)\<close>, an invalid name and no diagnostic.\<close>

theorem decoy_receiver_ignored_witness:
  "TypeOf decoyPass (Ident 10 ''runner'') = Some ''*decoy.Runner'' \<and>
   callDiags (\<lambda>r. False) decoyPass (runCall 10 ''runner'' (BasicLit 21 (quoted ''NotATest''))) = [] \<and>
   \<not> isValidSnakeCase (\<lambda>r. False) (ascii ''NotATest'') \<and>
   run (\<lambda>r. False) decoyPass = []"
proof -
  have t: "TypeOf decoyPass (Ident 10 ''runner'') = Some ''*decoy.Runner''"
    by (simp add: decoyPass_def singleFile_def recvType_def)
  have c: "runCall 10 ''runner'' (BasicLit 21 (quoted ''NotATest'')) =
      CallExpr (SelectorExpr (Ident 10 ''runner'') 17 ''Run'')
         [BasicLit 21 (quoted ''NotATest''), OtherNode 33 [] 55] 55"
    by (simp add: runCall_def quoted_def ascii_def)
  have a: "\<forall>fl \<in> set (Files decoyPass). \<forall>n \<in> set (preorder (fileRoot fl)).
       \<forall>y yp yn args' rp'. n = CallExpr (SelectorExpr y yp yn) args' rp' \<longrightarrow>
         TypeOf decoyPass y \<noteq> Some ''*testing.T'' \<and> TypeOf decoyPass y \<noteq> Some ''*testing.B'' \<and>
         TypeOf decoyPass y \<noteq> Some ''*testing.F''"
    by (simp add: decoyPass_def singleFile_def recvType_def runCall_def preorder.simps)
  have nv: "\<not> isValidSnakeCase (\<lambda>r. False) (ascii ''NotATest'')"
    by (simp add: validator_defs)
  from decoy_receiver_ignored [of decoyPass "Ident 10 ''runner''" "\<lambda>r. False" 17 "''Run''"
        "[BasicLit 21 (quoted ''NotATest''), OtherNode 33 [] 55]" 55] t c a nv
  show ?thesis by simp
qed

text \<open>
  C7, as amended. For a candidate call whose name argument is a basic literal, the name
  resolves to the literal's source text with every leading and trailing double quote
  removed (which is the text between the quotes when that text neither starts nor ends with
  a double quote), and a failing name is reported once, at the position of the call
  expression, which is the position of the receiver, not at the literal's.
\<close>

theorem literal_name_resolution:
  assumes "isTestingType P x"
  shows "eval P (BasicLit lp lv) = (Trim lv quote, True) \<and>
     callDiags U P (CallExpr (SelectorExpr x sp ''Run'') (BasicLit lp lv # body # rest) rp) =
       (if Trim lv quote \<noteq> [] \<and> \<not> isValidSnakeCase U (Trim lv quote)
        then [Diagnostic (nodePos (CallExpr (SelectorExpr x sp ''Run'') (BasicLit lp lv # body # rest) rp))
                (Trim lv quote)]
        else []) \<and>
     nodePos (CallExpr (SelectorExpr x sp ''Run'') (BasicLit lp lv # body # rest) rp) = nodePos x \<and>
     (s = [] \<or> (hd s \<noteq> 34 \<and> last s \<noteq> 34) \<longrightarrow> Trim (34 # s @ [34]) quote = s)"
  using assms Trim_quoted_text [of s]
  by (simp add: callDiags_cases candidateArg_call tableCases_BasicLit runDirect_eq eval_BasicLit)

theorem literal_name_resolution_witness:
  "isTestingType badLiteralPass (Ident 10 ''t'') \<and>
   eval badLiteralPass (BasicLit 16 (34 # ascii ''BadName'' @ [34])) = (ascii ''BadName'', True) \<and>
   callDiags (\<lambda>r. False) badLiteralPass
     (CallExpr (SelectorExpr (Ident 10 ''t'') 12 ''Run'')
        [BasicLit 16 (34 # ascii ''BadName'' @ [34]), OtherNode 27 [] 49] 49) =
     [Diagnostic 10 (ascii ''BadName'')]"
proof -
  have t: "isTestingType badLiteralPass (Ident 10 ''t'')"
    by (simp add: isTestingType_def badLiteralPass_def singleFile_def recvType_def)
  have s: "ascii ''BadName'' = [] \<or> (hd (ascii ''BadName'') \<noteq> 34 \<and> last (ascii ''BadName'') \<noteq> 34)"
    by (simp add: ascii_def)
  have nv: "\<not> isValidSnakeCase (\<lambda>r. False) (ascii ''BadName'')"
    by (simp add: validator_defs)
  have ne: "ascii ''BadName'' \<noteq> []"
    by (simp add: ascii_def)
  from literal_name_resolution [OF t, of 16 "34 # ascii ''BadName'' @ [34]" "\<lambda>r. False" 12
      "OtherNode 27 [] 49" "[]" 49 "ascii ''BadName''"] t s nv ne
  show ?thesis by simp
qed

text \<open>
  C7 as stated fails: for \<open>t.Run("BadName", f)\<close> with the receiver at 10 and the literal at
  16 the one diagnostic is at 10. And the resolved text is the trimmed source text, not the
  value of the literal: the literal \<^verbatim>\<open>"\""\<close> (code points 34, 92, 34, 34), whose value is
  one double quote, resolves to a backslash (92).
\<close>

theorem literal_position_counterexample:
  "candidateArg badLiteralPass (runCall 10 ''t'' (BasicLit 16 (quoted ''BadName''))) =
     Some (BasicLit 16 (quoted ''BadName'')) \<and>
   nodePos (BasicLit 16 (quoted ''BadName'')) = 16 \<and>
   nodePos (runCall 10 ''t'' (BasicLit 16 (quoted ''BadName''))) = 10 \<and>
   run (\<lambda>r. False) badLiteralPass = [Diagnostic 10 (ascii ''BadName'')] \<and>
   eval badLiteralPass (BasicLit 16 [34, 92, 34, 34]) = ([92], True)"
  by code_simp

lemma preorder_child: "c \<in> set (children n) \<Longrightarrow> c \<in> set (preorder n)"
  using preorder_children [of c n] preorder_self [of c] by blast

text \<open>
  C2, as amended. For a candidate call in a test file of the pass: every value the
  table-driven path obtains that is not snake case is reported at its own position; when
  that path obtains nothing, a directly resolved name that is not empty and not snake case
  is reported at the position of the call. No diagnostic ever carries the empty name: a
  name that resolves to the empty string is skipped like an unresolved one.
\<close>

theorem invalid_nonempty_names_reported:
  assumes "fl \<in> set (Files P)" "isTestFile fl" "n \<in> set (preorder (fileRoot fl))"
    and "candidateArg P n = Some a"
  shows "(\<forall>(v, p) \<in> set (tableCases P a).
            \<not> isValidSnakeCase U v \<longrightarrow> Diagnostic p v \<in> set (run U P)) \<and>
         (tableCases P a = [] \<and> eval P a = (w, True) \<and> w \<noteq> [] \<and> \<not> isValidSnakeCase U w \<longrightarrow>
            Diagnostic (nodePos n) w \<in> set (run U P)) \<and>
         (\<forall>d \<in> set (run U P). \<exists>q u. d = Diagnostic q u \<and> u \<noteq> [])"
proof (intro conjI)
  have sub: "set (callDiags U P n) \<subseteq> set (run U P)"
    using assms(1-3) by (rule callDiags_in_run)
  show "\<forall>(v, p) \<in> set (tableCases P a).
          \<not> isValidSnakeCase U v \<longrightarrow> Diagnostic p v \<in> set (run U P)"
  proof (clarify)
    fix v p
    assume vp: "(v, p) \<in> set (tableCases P a)" and inv: "\<not> isValidSnakeCase U v"
    then have "tableCases P a \<noteq> []" by auto
    moreover have "v \<noteq> []" using vp by (rule tableCases_nonempty)
    ultimately have "Diagnostic p v \<in> set (callDiags U P n)"
      using vp inv assms(4) by (force simp: callDiags_cases reportCases_eq)
    with sub show "Diagnostic p v \<in> set (run U P)" by blast
  qed
  show "tableCases P a = [] \<and> eval P a = (w, True) \<and> w \<noteq> [] \<and> \<not> isValidSnakeCase U w \<longrightarrow>
          Diagnostic (nodePos n) w \<in> set (run U P)"
  proof
    assume "tableCases P a = [] \<and> eval P a = (w, True) \<and> w \<noteq> [] \<and> \<not> isValidSnakeCase U w"
    then have "Diagnostic (nodePos n) w \<in> set (callDiags U P n)"
      using assms(4) by (simp add: callDiags_cases runDirect_eq)
    with sub show "Diagnostic (nodePos n) w \<in> set (run U P)" by blast
  qed
  show "\<forall>d \<in> set (run U P). \<exists>q u. d = Diagnostic q u \<and> u \<noteq> []"
  proof
    fix d
    assume "d \<in> set (run U P)"
    then obtain m where m: "d \<in> set (callDiags U P m)"
      using run_from_callDiags by blast
    obtain q u where d: "d = Diagnostic q u" by (cases d)
    with m have "u \<noteq> []" using callDiags_names_nonempty by blast
    with d show "\<exists>q u. d = Diagnostic q u \<and> u \<noteq> []" by blast
  qed
qed

text \<open>
  C2 as stated fails: in \<open>t.Run("", f)\<close> the name resolves (the flag of \<open>eval\<close> is true) to the
  empty string, which is not snake case, and nothing is reported.
\<close>

theorem empty_name_counterexample:
  "candidateArg emptyNamePass (runCall 10 ''t'' (BasicLit 16 (quoted ''''))) =
     Some (BasicLit 16 (quoted '''')) \<and>
   eval emptyNamePass (BasicLit 16 (quoted '''')) = ([], True) \<and>
   \<not> isValidSnakeCase (\<lambda>r. False) [] \<and>
   run (\<lambda>r. False) emptyNamePass = []"
  by code_simp

text \<open>
  C4, as amended. For a candidate call whose name argument is a selector expression for
  which the table-driven extraction yields no value, the closure goes on to resolve the
  selector directly: \<open>eval\<close> resolves it exactly when the type oracle gives it a constant of
  kind string, and the call is reported, at the position of the call, exactly when that
  constant's trimmed text is neither empty nor snake case.
\<close>

theorem selector_without_table_resolved_directly:
  assumes "candidateArg P n = Some (SelectorExpr x sp field)"
    and "tableCases P (SelectorExpr x sp field) = []"
  shows "eval P (SelectorExpr x sp field) =
           (case constantString P (SelectorExpr x sp field) of
              None \<Rightarrow> ([], False) | Some s \<Rightarrow> (s, True)) \<and>
         callDiags U P n =
           (case constantString P (SelectorExpr x sp field) of
              None \<Rightarrow> []
            | Some s \<Rightarrow>
                if s \<noteq> [] \<and> \<not> isValidSnakeCase U s then [Diagnostic (nodePos n) s] else [])"
proof -
  have e: "eval P (SelectorExpr x sp field) =
           (case constantString P (SelectorExpr x sp field) of
              None \<Rightarrow> ([], False) | Some s \<Rightarrow> (s, True))"
    by (simp add: eval_def split: option.splits)
  show ?thesis
    using assms by (simp add: e callDiags_cases runDirect_eq split: option.splits)
qed

theorem selector_without_table_resolved_directly_witness:
  "candidateArg constSelectorPass (runCall 10 ''t'' constSelector) = Some constSelector \<and>
   tableCases constSelectorPass constSelector = [] \<and>
   constantString constSelectorPass constSelector = Some (ascii ''BadName'') \<and>
   callDiags (\<lambda>r. False) constSelectorPass (runCall 10 ''t'' constSelector) =
     [Diagnostic 10 (ascii ''BadName'')]"
proof -
  have c: "candidateArg constSelectorPass (runCall 10 ''t'' constSelector) =
      Some (SelectorExpr (Ident 16 ''names'') 22 ''Bad'')"
    by code_simp
  have tc: "tableCases constSelectorPass (SelectorExpr (Ident 16 ''names'') 22 ''Bad'') = []"
    by code_simp
  have cs: "constantString constSelectorPass (SelectorExpr (Ident 16 ''names'') 22 ''Bad'') =
      Some (ascii ''BadName'')"
    by code_simp
  have nv: "\<not> isValidSnakeCase (\<lambda>r. False) (ascii ''BadName'')"
    by (simp add: validator_defs)
  have ne: "ascii ''BadName'' \<noteq> []"
    by (simp add: ascii_def)
  have p: "nodePos (runCall 10 ''t'' constSelector) = 10"
    by (simp add: runCall_def)
  from selector_without_table_resolved_directly [OF c tc, of "\<lambda>r. False"] c tc cs nv ne p
  show ?thesis by (simp add: constSelector_def)
qed

text \<open>
  C4 as stated fails: for \<open>t.Run(names.Bad, f)\<close> the extraction yields nothing and the
  constant \<open>"BadName"\<close> of the selector is reported.
\<close>

theorem selector_constant_counterexample:
  "candidateArg constSelectorPass (runCall 10 ''t'' constSelector) = Some constSelector \<and>
   asSelectorExpr constSelector = Some (Ident 16 ''names'', 22, ''Bad'') \<and>
   extractValuesWithPosFromRange constSelectorPass (Ident 16 ''names'') ''Bad'' = [] \<and>
   run (\<lambda>r. False) constSelectorPass = [Diagnostic 10 (ascii ''BadName'')]"
  by code_simp

section \<open>Variables and loop variables\<close>

lemma findVarDeclLhs_Some:
  "findVarDeclLhs P obj lhs rhs i = Some v \<Longrightarrow>
   \<exists>j < length lhs. i + j < length rhs \<and> asIdent (lhs ! j) \<noteq> None \<and>
      ObjectOf P (lhs ! j) = Some obj \<and>
      (case asBasicLit (rhs ! (i + j)) of Some (lp, lv) \<Rightarrow> v = Trim lv quote | None \<Rightarrow> False)"
proof (induction lhs arbitrary: i)
  case Nil
  then show ?case by simp
next
  case (Cons l lhs)
  show ?case
  proof (cases "asIdent l \<noteq> None \<and> ObjectOf P l = Some obj \<and> i < length rhs \<and>
      asBasicLit (rhs ! i) \<noteq> None")
    case True
    with Cons.prems have "case asBasicLit (rhs ! i) of Some (lp, lv) \<Rightarrow> v = Trim lv quote | None \<Rightarrow> False"
      by (auto split: option.splits)
    with True have "0 < length (l # lhs) \<and> i + 0 < length rhs \<and> asIdent ((l # lhs) ! 0) \<noteq> None \<and>
      ObjectOf P ((l # lhs) ! 0) = Some obj \<and>
      (case asBasicLit (rhs ! (i + 0)) of Some (lp, lv) \<Rightarrow> v = Trim lv quote | None \<Rightarrow> False)"
      by simp
    then show ?thesis by blast
  next
    case False
    with Cons.prems have "findVarDeclLhs P obj lhs rhs (Suc i) = Some v"
      by (auto split: option.splits if_splits)
    from Cons.IH [OF this] obtain j where "j < length lhs" "Suc i + j < length rhs"
      "asIdent (lhs ! j) \<noteq> None" "ObjectOf P (lhs ! j) = Some obj"
      "case asBasicLit (rhs ! (Suc i + j)) of Some (lp, lv) \<Rightarrow> v = Trim lv quote | None \<Rightarrow> False"
      by blast
    then have "Suc j < length (l # lhs) \<and> i + Suc j < length rhs \<and>
      asIdent ((l # lhs) ! Suc j) \<noteq> None \<and> ObjectOf P ((l # lhs) ! Suc j) = Some obj \<and>
      (case asBasicLit (rhs ! (i + Suc j)) of Some (lp, lv) \<Rightarrow> v = Trim lv quote | None \<Rightarrow> False)"
      by simp
    then show ?thesis by blast
  qed
qed

lemma findVarDeclLhs_assigns:
  "findVarDeclLhs P obj lhs rhs 0 = Some v \<Longrightarrow> assignsLiteral P obj (AssignStmt lhs tok rhs) v"
proof -
  assume "findVarDeclLhs P obj lhs rhs 0 = Some v"
  from findVarDeclLhs_Some [OF this] obtain j where j: "j < length lhs" "j < length rhs"
    "asIdent (lhs ! j) \<noteq> None" "ObjectOf P (lhs ! j) = Some obj"
    "case asBasicLit (rhs ! j) of Some (lp, lv) \<Rightarrow> v = Trim lv quote | None \<Rightarrow> False"
    by auto
  then have "j \<in> {..<min (length lhs) (length rhs)}" by simp
  with j show ?thesis
    unfolding assignsLiteral_def by (simp only: asAssignStmt.simps option.case prod.case) blast
qed

lemma findVarDeclVisit_cases:
  "findVarDeclVisit P obj m r = (True, r) \<or>
   (\<exists>v. findVarDeclVisit P obj m r = (False, v) \<and> assignsLiteral P obj m v)"
proof (cases m)
  case (AssignStmt lhs tok rhs)
  then show ?thesis
    using findVarDeclLhs_assigns [of P obj lhs rhs _ tok]
    by (cases "findVarDeclLhs P obj lhs rhs 0") (auto simp: findVarDeclVisit_def)
qed (auto simp: findVarDeclVisit_def)

lemma inspect_findVarDecl:
  assumes "r = [] \<or> Q r"
    and "\<And>m v. m \<in> set (preorder root) \<Longrightarrow> assignsLiteral P obj m v \<Longrightarrow> Q v"
  shows "inspect (findVarDeclVisit P obj) root r = [] \<or> Q (inspect (findVarDeclVisit P obj) root r)"
proof (rule inspect_invariant [where I = "\<lambda>t. t = [] \<or> Q t", OF assms(1)])
  fix m t
  assume m: "m \<in> set (preorder root)" and t: "t = [] \<or> Q t"
  from findVarDeclVisit_cases [of P obj m t]
  show "snd (findVarDeclVisit P obj m t) = [] \<or> Q (snd (findVarDeclVisit P obj m t))"
    using assms(2) [OF m] t by auto
qed

lemma findVarDeclFiles_assigns:
  assumes "r = [] \<or> Q r"
    and "\<And>fl m v. fl \<in> set files \<Longrightarrow> m \<in> set (preorder (fileRoot fl)) \<Longrightarrow>
           assignsLiteral P obj m v \<Longrightarrow> Q v"
  shows "findVarDeclFiles P obj files r = [] \<or> Q (findVarDeclFiles P obj files r)"
  using assms
proof (induction files arbitrary: r)
  case Nil
  then show ?case by simp
next
  case (Cons fl files)
  let ?r = "inspect (findVarDeclVisit P obj) (fileRoot fl) r"
  have r: "?r = [] \<or> Q ?r"
    by (rule inspect_findVarDecl [where Q = Q, OF Cons.prems(1)]) (use Cons.prems(2) in auto)
  show ?case
  proof (cases "?r = []")
    case True
    have "findVarDeclFiles P obj files ?r = [] \<or> Q (findVarDeclFiles P obj files ?r)"
      by (rule Cons.IH [OF r]) (use Cons.prems(2) in auto)
    with True show ?thesis by (simp add: Let_def)
  next
    case False
    with r show ?thesis by (simp add: Let_def)
  qed
qed

lemma findVarDecl_assigns:
  "findVarDecl P ident = v \<Longrightarrow> v \<noteq> [] \<Longrightarrow>
   \<exists>obj. ObjectOf P ident = Some obj \<and>
     (\<exists>fl \<in> set (Files P). \<exists>m \<in> set (preorder (fileRoot fl)). assignsLiteral P obj m v)"
proof -
  assume v: "findVarDecl P ident = v" "v \<noteq> []"
  then obtain obj where obj: "ObjectOf P ident = Some obj"
    by (cases "ObjectOf P ident") (auto simp: findVarDecl_def)
  let ?Q = "\<lambda>u. \<exists>fl \<in> set (Files P). \<exists>m \<in> set (preorder (fileRoot fl)). assignsLiteral P obj m u"
  have "findVarDeclFiles P obj (Files P) [] = [] \<or> ?Q (findVarDeclFiles P obj (Files P) [])"
    by (rule findVarDeclFiles_assigns [where Q = ?Q]) auto
  with v obj show ?thesis by (auto simp: findVarDecl_def)
qed

lemma findVarDecl_none:
  assumes "ObjectOf P ident = Some obj"
    and "\<forall>fl \<in> set (Files P). \<forall>m \<in> set (preorder (fileRoot fl)). \<forall>u. \<not> assignsLiteral P obj m u"
  shows "findVarDecl P ident = []"
  using findVarDecl_assigns [of P ident "findVarDecl P ident"] assms by auto

lemma tableCases_Ident: "tableCases P (Ident ip nm) = []"
  by (simp add: tableCases_def)

lemma eval_variable:
  "ObjectOf P (Ident ip nm) = Some (Var i) \<Longrightarrow> TypesValue P (Ident ip nm) = None \<Longrightarrow>
   eval P (Ident ip nm) =
     (if findVarDecl P (Ident ip nm) \<noteq> [] then (findVarDecl P (Ident ip nm), True) else ([], False))"
  by (simp add: eval_def constantString_def evalIdent_def Let_def)

text \<open>
  C3, as amended. For a candidate call whose name argument is an identifier of a variable
  (with no constant value in the type oracle): when the name resolves, its value is not
  empty and is the trimmed source text of a basic literal that stands, in some assignment
  statement of some file of the pass, on the right at the index at which an identifier of
  that variable stands on the left; the operator of the statement is not read, so the
  statement may be \<open>x = "..."\<close>, \<open>x := "..."\<close> or a compound assignment such as
  \<open>x += "..."\<close>. The call is then reported, at its own position, exactly when that value is
  not snake case. When no assignment statement of any file has such a literal for the
  variable, the name is unresolved and the call reports nothing. (Several such statements
  do not make the variable unresolved.)
\<close>

theorem variable_name_resolution:
  assumes "candidateArg P n = Some (Ident ip nm)"
    and "ObjectOf P (Ident ip nm) = Some (Var i)"
    and "TypesValue P (Ident ip nm) = None"
  shows "(eval P (Ident ip nm) = (v, True) \<longrightarrow>
            v \<noteq> [] \<and>
            (\<exists>fl \<in> set (Files P). \<exists>m \<in> set (preorder (fileRoot fl)). assignsLiteral P (Var i) m v) \<and>
            callDiags U P n = (if \<not> isValidSnakeCase U v then [Diagnostic (nodePos n) v] else [])) \<and>
         ((\<forall>fl \<in> set (Files P). \<forall>m \<in> set (preorder (fileRoot fl)). \<forall>u.
              \<not> assignsLiteral P (Var i) m u) \<longrightarrow>
            eval P (Ident ip nm) = ([], False) \<and> callDiags U P n = [])"
proof (intro conjI impI)
  note e = eval_variable [OF assms(2,3)]
  note d = callDiags_cases [OF assms(1), of U, unfolded tableCases_Ident]
  {
    assume ev: "eval P (Ident ip nm) = (v, True)"
    then have fv: "findVarDecl P (Ident ip nm) = v" and ne: "v \<noteq> []"
      using e by (auto split: if_splits)
    show "v \<noteq> []" by (rule ne)
    show "\<exists>fl \<in> set (Files P). \<exists>m \<in> set (preorder (fileRoot fl)). assignsLiteral P (Var i) m v"
      using findVarDecl_assigns [OF fv ne] assms(2) by auto
    show "callDiags U P n = (if \<not> isValidSnakeCase U v then [Diagnostic (nodePos n) v] else [])"
      using d ev ne by (simp add: runDirect_eq)
  }
  {
    assume none: "\<forall>fl \<in> set (Files P). \<forall>m \<in> set (preorder (fileRoot fl)). \<forall>u.
              \<not> assignsLiteral P (Var i) m u"
    have fv: "findVarDecl P (Ident ip nm) = []"
      by (rule findVarDecl_none [OF assms(2) none])
    with e show ev: "eval P (Ident ip nm) = ([], False)" by simp
    with d show "callDiags U P n = []" by (simp add: runDirect_eq)
  }
qed

theorem variable_name_resolution_witness:
  "candidateArg twoWritesPass (runCall 40 ''t'' (Ident 46 ''x'')) = Some (Ident 46 ''x'') \<and>
   eval twoWritesPass (Ident 46 ''x'') = (ascii ''BadName'', True) \<and>
   (\<exists>fl \<in> set (Files twoWritesPass). \<exists>m \<in> set (preorder (fileRoot fl)).
      assignsLiteral twoWritesPass (Var 1) m (ascii ''BadName'')) \<and>
   callDiags (\<lambda>r. False) twoWritesPass (runCall 40 ''t'' (Ident 46 ''x'')) =
     [Diagnostic 40 (ascii ''BadName'')] \<and>
   candidateArg noWritePass (runCall 40 ''t'' (Ident 46 ''x'')) = Some (Ident 46 ''x'') \<and>
   eval noWritePass (Ident 46 ''x'') = ([], False) \<and>
   callDiags (\<lambda>r. False) noWritePass (runCall 40 ''t'' (Ident 46 ''x'')) = [] \<and>
   eval compoundPass (Ident 46 ''c'') = (ascii ''Bad'', True) \<and>
   assignsLiteral compoundPass (Var 1)
     (AssignStmt [Ident 20 ''c''] ADD_ASSIGN [BasicLit 25 (quoted ''Bad'')]) (ascii ''Bad'') \<and>
   callDiags (\<lambda>r. False) compoundPass (runCall 40 ''t'' (Ident 46 ''c'')) =
     [Diagnostic 40 (ascii ''Bad'')]"
proof -
  have c: "candidateArg twoWritesPass (runCall 40 ''t'' (Ident 46 ''x'')) = Some (Ident 46 ''x'')"
    by code_simp
  have o: "ObjectOf twoWritesPass (Ident 46 ''x'') = Some (Var 1)"
    by code_simp
  have t: "TypesValue twoWritesPass (Ident 46 ''x'') = None"
    by code_simp
  have e: "eval twoWritesPass (Ident 46 ''x'') = (ascii ''BadName'', True)"
    by code_simp
  have nv: "\<not> isValidSnakeCase (\<lambda>r. False) (ascii ''BadName'')"
    by (simp add: validator_defs)
  have p: "nodePos (runCall 40 ''t'' (Ident 46 ''x'')) = 40"
    by (simp add: runCall_def)
  have c': "candidateArg noWritePass (runCall 40 ''t'' (Ident 46 ''x'')) = Some (Ident 46 ''x'')"
    by code_simp
  have o': "ObjectOf noWritePass (Ident 46 ''x'') = Some (Var 1)"
    by code_simp
  have t': "TypesValue noWritePass (Ident 46 ''x'') = None"
    by code_simp
  have none: "\<forall>fl \<in> set (Files noWritePass). \<forall>m \<in> set (preorder (fileRoot fl)). \<forall>u.
      \<not> assignsLiteral noWritePass (Var 1) m u"
    by (simp add: noWritePass_def singleFile_def runCall_def preorder.simps assignsLiteral_def)
  have c2: "candidateArg compoundPass (runCall 40 ''t'' (Ident 46 ''c'')) = Some (Ident 46 ''c'')"
    by code_simp
  have o2: "ObjectOf compoundPass (Ident 46 ''c'') = Some (Var 1)"
    by code_simp
  have t2: "TypesValue compoundPass (Ident 46 ''c'') = None"
    by code_simp
  have e2: "eval compoundPass (Ident 46 ''c'') = (ascii ''Bad'', True)"
    by code_simp
  have a2: "assignsLiteral compoundPass (Var 1)
      (AssignStmt [Ident 20 ''c''] ADD_ASSIGN [BasicLit 25 (quoted ''Bad'')]) (ascii ''Bad'')"
    by code_simp
  have nv2: "\<not> isValidSnakeCase (\<lambda>r. False) (ascii ''Bad'')"
    by (simp add: validator_defs)
  have p2: "nodePos (runCall 40 ''t'' (Ident 46 ''c'')) = 40"
    by (simp add: runCall_def)
  from variable_name_resolution [OF c o t, of "ascii ''BadName''" "\<lambda>r. False"]
    variable_name_resolution [OF c' o' t', of "[]" "\<lambda>r. False"]
    variable_name_resolution [OF c2 o2 t2, of "ascii ''Bad''" "\<lambda>r. False"]
    c e nv p c' none e2 a2 nv2 p2
  show ?thesis by simp
qed

text \<open>
  C3 as stated fails: with the two assignments \<open>x := "good_name"\<close> and \<open>x = "BadName"\<close> the
  variable is resolved, to the second, and the call is reported. And in
  \<open>var c string; c += "Bad"; t.Run(c, f)\<close>, where no simple assignment gives \<open>c\<close> a literal,
  the variable is resolved to \<open>Bad\<close> and the call is reported.
\<close>

theorem two_writes_counterexample:
  "candidateArg twoWritesPass (runCall 40 ''t'' (Ident 46 ''x'')) = Some (Ident 46 ''x'') \<and>
   ObjectOf twoWritesPass (Ident 46 ''x'') = Some (Var 1) \<and>
   assignsLiteral twoWritesPass (Var 1)
     (AssignStmt [Ident 5 ''x''] DEFINE [BasicLit 10 (quoted ''good_name'')]) (ascii ''good_name'') \<and>
   assignsLiteral twoWritesPass (Var 1)
     (AssignStmt [Ident 25 ''x''] ASSIGN [BasicLit 29 (quoted ''BadName'')]) (ascii ''BadName'') \<and>
   eval twoWritesPass (Ident 46 ''x'') = (ascii ''BadName'', True) \<and>
   run (\<lambda>r. False) twoWritesPass = [Diagnostic 40 (ascii ''BadName'')] \<and>
   candidateArg compoundPass (runCall 40 ''t'' (Ident 46 ''c'')) = Some (Ident 46 ''c'') \<and>
   ObjectOf compoundPass (Ident 46 ''c'') = Some (Var 1) \<and>
   filter (\<lambda>m. asAssignStmt m \<noteq> None) (testNodes compoundPass) =
     [AssignStmt [Ident 20 ''c''] ADD_ASSIGN [BasicLit 25 (quoted ''Bad'')]] \<and>
   run (\<lambda>r. False) compoundPass = [Diagnostic 40 (ascii ''Bad'')]"
  by code_simp

lemma rangeVisit_cases:
  "rangeVisit P obj m r = (True, r) \<or>
   (\<exists>x. rangeVisit P obj m r = (False, Some x) \<and> bindsLoopVar P obj m x)"
proof (cases m)
  case (RangeStmt fp k v x body)
  then show ?thesis
    by (cases v) (auto simp: rangeVisit_def bindsLoopVar_def split: option.splits)
qed (auto simp: rangeVisit_def)

lemma inspect_rangeVisit:
  assumes "r = None \<or> (\<exists>x. r = Some x \<and> Q x)"
    and "\<And>m x. m \<in> set (preorder root) \<Longrightarrow> bindsLoopVar P obj m x \<Longrightarrow> Q x"
  shows "inspect (rangeVisit P obj) root r = None \<or>
         (\<exists>x. inspect (rangeVisit P obj) root r = Some x \<and> Q x)"
proof (rule inspect_invariant [where I = "\<lambda>t. t = None \<or> (\<exists>x. t = Some x \<and> Q x)", OF assms(1)])
  fix m t
  assume m: "m \<in> set (preorder root)" and t: "t = None \<or> (\<exists>x. t = Some x \<and> Q x)"
  from rangeVisit_cases [of P obj m t]
  show "snd (rangeVisit P obj m t) = None \<or> (\<exists>x. snd (rangeVisit P obj m t) = Some x \<and> Q x)"
    using assms(2) [OF m] t by auto
qed

lemma rangeFiles_binds:
  assumes "r = None \<or> (\<exists>x. r = Some x \<and> Q x)"
    and "\<And>fl m x. fl \<in> set files \<Longrightarrow> m \<in> set (preorder (fileRoot fl)) \<Longrightarrow>
           bindsLoopVar P obj m x \<Longrightarrow> Q x"
  shows "rangeFiles P obj files r = None \<or> (\<exists>x. rangeFiles P obj files r = Some x \<and> Q x)"
  using assms
proof (induction files arbitrary: r)
  case Nil
  then show ?case by simp
next
  case (Cons fl files)
  let ?r = "inspect (rangeVisit P obj) (fileRoot fl) r"
  have r: "?r = None \<or> (\<exists>x. ?r = Some x \<and> Q x)"
    by (rule inspect_rangeVisit [where Q = Q, OF Cons.prems(1)]) (use Cons.prems(2) in auto)
  show ?case
  proof (cases "?r = None")
    case True
    have "rangeFiles P obj files ?r = None \<or> (\<exists>x. rangeFiles P obj files ?r = Some x \<and> Q x)"
      by (rule Cons.IH [OF r]) (use Cons.prems(2) in auto)
    with True show ?thesis by (simp add: Let_def)
  next
    case False
    with r show ?thesis by (auto simp: Let_def)
  qed
qed

lemma rangeFiles_Some:
  "rangeFiles P obj (Files P) None = Some x \<Longrightarrow>
   \<exists>fl \<in> set (Files P). \<exists>m \<in> set (preorder (fileRoot fl)). bindsLoopVar P obj m x"
proof -
  let ?Q = "\<lambda>x. \<exists>fl \<in> set (Files P). \<exists>m \<in> set (preorder (fileRoot fl)). bindsLoopVar P obj m x"
  assume s: "rangeFiles P obj (Files P) None = Some x"
  have "rangeFiles P obj (Files P) None = None \<or>
        (\<exists>x. rangeFiles P obj (Files P) None = Some x \<and> ?Q x)"
    by (rule rangeFiles_binds [where Q = ?Q]) auto
  with s show ?thesis by auto
qed

text \<open>
  C8, as amended. The range statement whose collection is extracted for \<open>loopVar.field\<close>
  is a range statement, in some file of the pass, whose per-element variable is an
  identifier of \<open>loopVar\<close>'s object; whether it contains the call is not looked at. When no
  range statement of any file has such a variable, or \<open>loopVar\<close> has no object, the
  extraction yields nothing.
\<close>

theorem range_statement_by_object:
  "(rangeFiles P obj (Files P) None = Some x \<longrightarrow>
      (\<exists>fl \<in> set (Files P). \<exists>m \<in> set (preorder (fileRoot fl)). bindsLoopVar P obj m x)) \<and>
   (extractValuesWithPosFromRange P loopVar field \<noteq> [] \<longrightarrow>
      (\<exists>ob y. ObjectOf P loopVar = Some ob \<and> rangeFiles P ob (Files P) None = Some y \<and>
         (\<exists>fl \<in> set (Files P). \<exists>m \<in> set (preorder (fileRoot fl)). bindsLoopVar P ob m y))) \<and>
   ((\<forall>ob. ObjectOf P loopVar = Some ob \<longrightarrow>
        (\<forall>fl \<in> set (Files P). \<forall>m \<in> set (preorder (fileRoot fl)). \<forall>y. \<not> bindsLoopVar P ob m y)) \<longrightarrow>
      extractValuesWithPosFromRange P loopVar field = [])"
proof (intro conjI impI)
  assume "rangeFiles P obj (Files P) None = Some x"
  then show "\<exists>fl \<in> set (Files P). \<exists>m \<in> set (preorder (fileRoot fl)). bindsLoopVar P obj m x"
    by (rule rangeFiles_Some)
next
  assume ne: "extractValuesWithPosFromRange P loopVar field \<noteq> []"
  then obtain ob where ob: "ObjectOf P loopVar = Some ob"
    by (cases "ObjectOf P loopVar") (auto simp: extractValuesWithPosFromRange_def)
  with ne obtain y where y: "rangeFiles P ob (Files P) None = Some y"
    by (cases "rangeFiles P ob (Files P) None") (auto simp: extractValuesWithPosFromRange_def)
  from rangeFiles_Some [OF y] ob y
  show "\<exists>ob y. ObjectOf P loopVar = Some ob \<and> rangeFiles P ob (Files P) None = Some y \<and>
         (\<exists>fl \<in> set (Files P). \<exists>m \<in> set (preorder (fileRoot fl)). bindsLoopVar P ob m y)"
    by blast
next
  assume none: "\<forall>ob. ObjectOf P loopVar = Some ob \<longrightarrow>
        (\<forall>fl \<in> set (Files P). \<forall>m \<in> set (preorder (fileRoot fl)). \<forall>y. \<not> bindsLoopVar P ob m y)"
  show "extractValuesWithPosFromRange P loopVar field = []"
  proof (cases "ObjectOf P loopVar")
    case None
    then show ?thesis by (simp add: extractValuesWithPosFromRange_def)
  next
    case (Some ob)
    have "rangeFiles P ob (Files P) None = None"
    proof (cases "rangeFiles P ob (Files P) None")
      case None
      then show ?thesis .
    next
      case (Some y)
      from rangeFiles_Some [OF this] none \<open>ObjectOf P loopVar = Some ob\<close>
      show ?thesis by blast
    qed
    with Some show ?thesis by (simp add: extractValuesWithPosFromRange_def)
  qed
qed

theorem range_statement_by_object_witness:
  "rangeFiles outsidePass (Var 2) (Files outsidePass) None =
     Some (CompositeLit (Some (OtherNode 28 [] 50)) 50
       [CompositeLit None 51 [KeyValueExpr (Ident 52 ''name'') (BasicLit 58 (quoted ''Bad Name''))] 68]
       69) \<and>
   extractValuesWithPosFromRange outsidePass (Ident 86 ''tt'') ''name'' = [(ascii ''Bad Name'', 58)] \<and>
   (\<exists>fl \<in> set (Files outsidePass). \<exists>m \<in> set (preorder (fileRoot fl)).
      bindsLoopVar outsidePass (Var 2) m
        (CompositeLit (Some (OtherNode 28 [] 50)) 50
          [CompositeLit None 51 [KeyValueExpr (Ident 52 ''name'') (BasicLit 58 (quoted ''Bad Name''))] 68]
          69)) \<and>
   extractValuesWithPosFromRange noWritePass (Ident 46 ''x'') ''name'' = []"
proof -
  let ?x = "CompositeLit (Some (OtherNode 28 [] 50)) 50
       [CompositeLit None 51 [KeyValueExpr (Ident 52 ''name'') (BasicLit 58 (quoted ''Bad Name''))] 68]
       69"
  have r: "rangeFiles outsidePass (Var 2) (Files outsidePass) None = Some ?x"
    by code_simp
  have e: "extractValuesWithPosFromRange outsidePass (Ident 86 ''tt'') ''name'' = [(ascii ''Bad Name'', 58)]"
    by code_simp
  have none: "\<forall>ob. ObjectOf noWritePass (Ident 46 ''x'') = Some ob \<longrightarrow>
      (\<forall>fl \<in> set (Files noWritePass). \<forall>m \<in> set (preorder (fileRoot fl)). \<forall>y.
         \<not> bindsLoopVar noWritePass ob m y)"
    by (simp add: noWritePass_def singleFile_def runCall_def preorder.simps bindsLoopVar_def)
  from range_statement_by_object [of outsidePass "Var 2" ?x "Ident 86 ''tt''" "''name''"]
    range_statement_by_object [of noWritePass "Var 2" ?x "Ident 46 ''x''" "''name''"] r e none
  show ?thesis by simp
qed

text \<open>
  C8 as stated fails: in
  \<open>for _, tt = range []T{{name: "Bad Name"}} {}; t.Run(tt.name, f)\<close> the range statement ends
  (at 73) before the call begins (at 80), so no range statement contains the call; yet its
  collection is extracted and the call is reported for the row.
\<close>

theorem call_outside_range_counterexample:
  "candidateArg outsidePass outsideCall = Some (SelectorExpr (Ident 86 ''tt'') 89 ''name'') \<and>
   preorder (fileRoot (hd (Files outsidePass))) ! 1 = outsideRange \<and>
   length (filter (\<lambda>m. asRangeStmt m \<noteq> None) (preorder (fileRoot (hd (Files outsidePass))))) = 1 \<and>
   nodeEnd outsideRange = 73 \<and> nodePos outsideCall = 80 \<and>
   extractValuesWithPosFromRange outsidePass (Ident 86 ''tt'') ''name'' = [(ascii ''Bad Name'', 58)] \<and>
   run (\<lambda>r. False) outsidePass = [Diagnostic 58 (ascii ''Bad Name'')]"
  by code_simp

section \<open>Searches that stop at a hit\<close>















section \<open>The table-driven scenario\<close>











text \<open>
  C2 on the samples: the literal name \<open>"BadName"\<close> is reported at the call, and the first row
  of the sample table at its value.
\<close>

theorem invalid_nonempty_names_reported_witness:
  "candidateArg badLiteralPass (runCall 10 ''t'' (BasicLit 16 (quoted ''BadName''))) =
     Some (BasicLit 16 (quoted ''BadName'')) \<and>
   eval badLiteralPass (BasicLit 16 (quoted ''BadName'')) = (ascii ''BadName'', True) \<and>
   \<not> isValidSnakeCase (\<lambda>r. False) (ascii ''BadName'') \<and>
   Diagnostic 10 (ascii ''BadName'') \<in> set (run (\<lambda>r. False) badLiteralPass) \<and>
   tableCases tableVarPass (SelectorExpr (Ident 316 ''tt'') 319 ''name'') =
     [(ascii ''invalid snake case'', 97), (ascii ''valid_snake_case'', 127)] \<and>
   \<not> isValidSnakeCase (\<lambda>r. False) (ascii ''invalid snake case'') \<and>
   Diagnostic 97 (ascii ''invalid snake case'') \<in> set (run (\<lambda>r. False) tableVarPass)"
proof -
  let ?fl = "\<lparr> fileName = ''sample_test.go'',
               fileRoot = OtherNode 1 [runCall 10 ''t'' (BasicLit 16 (quoted ''BadName''))] 60 \<rparr>"
  let ?n = "runCall 10 ''t'' (BasicLit 16 (quoted ''BadName''))"
  have f: "?fl \<in> set (Files badLiteralPass)"
    by (simp add: badLiteralPass_def singleFile_def)
  have t: "isTestFile ?fl"
    by (simp add: isTestFile_def HasSuffix_def)
  have n: "?n \<in> set (preorder (fileRoot ?fl))"
    by (rule preorder_child) simp
  have c: "candidateArg badLiteralPass ?n = Some (BasicLit 16 (quoted ''BadName''))"
    by code_simp
  have tc: "tableCases badLiteralPass (BasicLit 16 (quoted ''BadName'')) = []"
    by (rule tableCases_BasicLit)
  have e: "eval badLiteralPass (BasicLit 16 (quoted ''BadName'')) = (ascii ''BadName'', True)"
    by code_simp
  have ne: "ascii ''BadName'' \<noteq> []"
    by (simp add: ascii_def)
  have nv: "\<not> isValidSnakeCase (\<lambda>r. False) (ascii ''BadName'')"
    by (simp add: validator_defs)
  have p: "nodePos ?n = 10"
    by (simp add: runCall_def)
  let ?m = "runCall 310 ''t'' (SelectorExpr (Ident 316 ''tt'') 319 ''name'')"
  have f': "hd (Files tableVarPass) \<in> set (Files tableVarPass)"
    by (simp add: tableVarPass_def singleFile_def)
  have t': "isTestFile (hd (Files tableVarPass))"
    by (simp add: tableVarPass_def singleFile_def isTestFile_def HasSuffix_def)
  have n': "?m \<in> set (preorder (fileRoot (hd (Files tableVarPass))))"
    by code_simp
  have c': "candidateArg tableVarPass ?m = Some (SelectorExpr (Ident 316 ''tt'') 319 ''name'')"
    by code_simp
  have tc': "tableCases tableVarPass (SelectorExpr (Ident 316 ''tt'') 319 ''name'') =
      [(ascii ''invalid snake case'', 97), (ascii ''valid_snake_case'', 127)]"
    by code_simp
  have nv': "\<not> isValidSnakeCase (\<lambda>r. False) (ascii ''invalid snake case'')"
    by (simp add: validator_defs)
  from invalid_nonempty_names_reported [OF f t n c, of "\<lambda>r. False" "ascii ''BadName''"]
    invalid_nonempty_names_reported [OF f' t' n' c', of "\<lambda>r. False" "[]"]
    tc e ne nv p c tc' nv'
  show ?thesis by simp
qed

section \<open>The two analyser files compared\<close>

lemma reportNames_append: "reportNames U m ds = ds @ reportNames U m []"
proof (induction m arbitrary: ds)
  case Nil
  show ?case by simp
next
  case (Cons e m)
  obtain nm p where e: "e = (nm, p)" by (cases e)
  show ?case
    using Cons [of "ds @ [Diagnostic p nm]"] Cons [of "[Diagnostic p nm]"] Cons [of ds]
    by (simp add: e)
qed

lemma runVisit001_not_candidate:
  "candidateArg P n = None \<Longrightarrow> runVisit001 U ord P fl n ds = (True, ds)"
  by (auto simp: candidateArg_def runVisit001_def split: option.splits if_splits)

lemma runVisit001_selector:
  "candidateArg P n = Some (SelectorExpr x sp field) \<Longrightarrow>
   runVisit001 U ord P fl n ds =
     (True, reportNames U (ord (extractTableTestNames P fl field n)) ds)"
  by (auto simp: candidateArg_def runVisit001_def Let_def split: option.splits if_splits)

lemma runVisit001_direct:
  "candidateArg P n = Some a \<Longrightarrow> asSelectorExpr a = None \<Longrightarrow>
   runVisit001 U ord P fl n ds =
     (True, if getStringValue P a \<noteq> [] \<and> \<not> isValidSnakeCase U (getStringValue P a)
            then ds @ [Diagnostic (nodePos n) (getStringValue P a)] else ds)"
  by (auto simp: candidateArg_def runVisit001_def Let_def split: option.splits if_splits)

lemma runVisit001_eq: "runVisit001 U ord P fl n ds = (True, ds @ callDiags001 U ord P fl n)"
proof (cases "candidateArg P n")
  case None
  then show ?thesis by (simp add: callDiags001_def runVisit001_not_candidate)
next
  case (Some a)
  show ?thesis
  proof (cases "asSelectorExpr a")
    case None
    with Some show ?thesis by (simp add: callDiags001_def runVisit001_direct)
  next
    case (Some sel)
    then obtain x sp field where "a = SelectorExpr x sp field"
      by (cases a) auto
    with \<open>candidateArg P n = Some a\<close> show ?thesis
      using reportNames_append [of U _ ds]
      by (simp add: callDiags001_def runVisit001_selector)
  qed
qed

lemma fold_runVisit001:
  "fold (\<lambda>m t. snd (runVisit001 U ord P fl m t)) ns ds =
   ds @ concat (map (callDiags001 U ord P fl) ns)"
  by (induction ns arbitrary: ds) (simp_all add: runVisit001_eq)

lemma inspect_runVisit001:
  "inspect (runVisit001 U ord P fl) n ds =
   ds @ concat (map (callDiags001 U ord P fl) (preorder n))"
proof -
  have "inspect (runVisit001 U ord P fl) n ds =
      fold (\<lambda>m t. snd (runVisit001 U ord P fl m t)) (preorder n) ds"
    by (rule inspect_preorder) (simp add: runVisit001_eq)
  then show ?thesis by (simp add: fold_runVisit001)
qed

lemma runFiles001_eq:
  "runFiles001 U ord P files ds =
   ds @ concat (map (\<lambda>fl. concat (map (callDiags001 U ord P fl) (preorder (fileRoot fl))))
                  (filter isTestFile files))"
  by (induction files arbitrary: ds) (simp_all add: inspect_runVisit001 isTestFile_def)

lemma strVal_getStringValue:
  assumes "asSelectorExpr a = None" "oracleConsistent P a"
  shows "strVal P a = getStringValue P a"
proof (cases a)
  case (BasicLit p v)
  then show ?thesis by (simp add: strVal_def eval_def getStringValue_def)
next
  case (Ident p nm)
  show ?thesis
  proof (cases "ObjectOf P a")
    case None
    with Ident assms(2) show ?thesis
      by (auto simp: strVal_def eval_def getStringValue_def getStringValueIdent_def
          evalIdent_def constantString_def oracleConsistent_def split: option.splits)
  next
    case (Some ob)
    with Ident assms(2) show ?thesis
      by (cases ob)
        (auto simp: strVal_def eval_def getStringValue_def getStringValueIdent_def
          evalIdent_def constantString_def oracleConsistent_def Let_def split: option.splits)
  qed
next
  case (SelectorExpr x sp sn)
  with assms(1) show ?thesis by simp
qed (use assms(2) in \<open>auto simp: strVal_def eval_def getStringValue_def getStringValueIdent_def
          constantString_def oracleConsistent_def split: option.splits\<close>)

lemma callDiags_agree:
  assumes "candidateArg P n = Some a" "asSelectorExpr a = None" "oracleConsistent P a"
  shows "callDiags U P n = callDiags001 U ord P fl n"
proof -
  have "tableCases P a = []"
    using assms(2) by (simp add: tableCases_def)
  then have "callDiags U P n = runDirect U P n a []"
    using assms(1) by (simp add: callDiags_cases)
  also have "\<dots> = (if getStringValue P a \<noteq> [] \<and> \<not> isValidSnakeCase U (getStringValue P a)
            then [Diagnostic (nodePos n) (getStringValue P a)] else [])"
    by (simp add: runDirect_def Let_def strVal_getStringValue [OF assms(2,3)])
  also have "\<dots> = callDiags001 U ord P fl n"
    by (simp add: callDiags001_def runVisit001_direct [OF assms(1,2)])
  finally show ?thesis .
qed

text \<open>
  C10, as amended. On every pass in which no candidate call of a test file has a selector
  expression as its name argument, and the type oracle is consistent on the name
  arguments, the entry point of \<open>testsnake.go\<close> and that of the older file report the same
  diagnostics at the same positions in the same order, whatever the order in which the
  older file ranges over its map.
\<close>

theorem entry_points_agree_without_selectors:
  assumes "\<forall>fl \<in> set (Files P). isTestFile fl \<longrightarrow>
             (\<forall>n \<in> set (preorder (fileRoot fl)). \<forall>a. candidateArg P n = Some a \<longrightarrow>
                asSelectorExpr a = None \<and> oracleConsistent P a)"
  shows "run U P = run001 U rangeOrder P"
proof -
  have "callDiags U P n = callDiags001 U rangeOrder P fl n"
    if "fl \<in> set (Files P)" "isTestFile fl" "n \<in> set (preorder (fileRoot fl))" for fl n
  proof (cases "candidateArg P n")
    case None
    then show ?thesis
      by (simp add: callDiags_not_candidate callDiags001_def runVisit001_not_candidate)
  next
    case (Some a)
    with assms that have "asSelectorExpr a = None" "oracleConsistent P a" by blast+
    with Some show ?thesis by (rule callDiags_agree)
  qed
  then have fd: "fileDiags U P fl =
      concat (map (callDiags001 U rangeOrder P fl) (preorder (fileRoot fl)))"
    if "fl \<in> set (Files P)" "isTestFile fl" for fl
    using that by (auto simp: fileDiags_def intro!: arg_cong [where f = concat])
  have "map (fileDiags U P) (filter isTestFile (Files P)) =
      map (\<lambda>fl. concat (map (callDiags001 U rangeOrder P fl) (preorder (fileRoot fl))))
        (filter isTestFile (Files P))"
    by (rule map_cong [OF refl]) (simp add: fd)
  then show ?thesis
    by (simp only: run_fileDiags run001_def runFiles001_eq append_Nil)
qed

theorem entry_points_agree_without_selectors_witness:
  "run (\<lambda>r. False) badLiteralPass = run001 (\<lambda>r. False) rev badLiteralPass \<and>
   run (\<lambda>r. False) badLiteralPass = [Diagnostic 10 (ascii ''BadName'')] \<and>
   run (\<lambda>r. False) twoWritesPass = run001 (\<lambda>r. False) rev twoWritesPass \<and>
   run (\<lambda>r. False) twoWritesPass = [Diagnostic 40 (ascii ''BadName'')]"
proof -
  have b: "\<forall>fl \<in> set (Files badLiteralPass). isTestFile fl \<longrightarrow>
      (\<forall>n \<in> set (preorder (fileRoot fl)). \<forall>a. candidateArg badLiteralPass n = Some a \<longrightarrow>
         asSelectorExpr a = None \<and> oracleConsistent badLiteralPass a)"
    by (simp add: badLiteralPass_def singleFile_def runCall_def preorder.simps candidateArg_def
        oracleConsistent_def)
  have t: "\<forall>fl \<in> set (Files twoWritesPass). isTestFile fl \<longrightarrow>
      (\<forall>n \<in> set (preorder (fileRoot fl)). \<forall>a. candidateArg twoWritesPass n = Some a \<longrightarrow>
         asSelectorExpr a = None \<and> oracleConsistent twoWritesPass a)"
    by (simp add: twoWritesPass_def singleFile_def runCall_def preorder.simps candidateArg_def
        oracleConsistent_def objByName_def)
  have rb: "run (\<lambda>r. False) badLiteralPass = [Diagnostic 10 (ascii ''BadName'')]"
    by code_simp
  have rt: "run (\<lambda>r. False) twoWritesPass = [Diagnostic 40 (ascii ''BadName'')]"
    by code_simp
  from entry_points_agree_without_selectors [OF b, of "\<lambda>r. False" rev]
    entry_points_agree_without_selectors [OF t, of "\<lambda>r. False" rev] rb rt
  show ?thesis by simp
qed

text \<open>
  C10 as stated fails. For a table whose two rows have the same invalid name,
  \<open>testsnake.go\<close> reports both rows and the older file, whose map has one entry for the
  name, reports once, at the second row. For \<open>t.Run(names.Bad, f)\<close> with a string constant
  \<open>names.Bad\<close>, \<open>testsnake.go\<close> reports the constant and the older file reports nothing. (In
  both cases the map has at most one entry, so the order of its traversal plays no part.)
\<close>

theorem entry_points_differ_counterexample:
  "run (\<lambda>r. False) repeatedRowsPass = [Diagnostic 97 (ascii ''Bad''), Diagnostic 127 (ascii ''Bad'')] \<and>
   run001 (\<lambda>r. False) id repeatedRowsPass = [Diagnostic 127 (ascii ''Bad'')] \<and>
   run (\<lambda>r. False) constSelectorPass = [Diagnostic 10 (ascii ''BadName'')] \<and>
   run001 (\<lambda>r. False) id constSelectorPass = []"
  by code_simp

end
